theory Spec2Isabelle
  imports Complex_Main "HOL-Library.Word" "HOL-Library.Multiset" "HOL-Library.Monad_Syntax"
    "HOL-Library.Log_Nat"
begin

unbundle bit_operations_syntax

section \<open>The microphone streamer (src/hook/useMicStreamer.ts)\<close>

text \<open>
  Numbers. The hook computes with JavaScript numbers, which are IEEE 754 doubles, and
  keeps its samples in \<open>Float32Array\<close>s. A finite double is a rational number, so
  durations, thresholds, samples and energies have type \<open>rat\<close>; comparisons are exact,
  and an addition, multiplication or division of the source is followed by the rounding
  to the nearest double (\<open>fl64\<close>), a store into a \<open>Float32Array\<close> by the rounding to
  the nearest single (\<open>fl32\<close>). The one product left unrounded is the scaling of a
  sample in \<open>floatTo16BitPCM\<close>, which is exact for a single. Results beyond the largest
  finite double, NaN, the infinities and the sign of zero are outside the model, except
  where a definition says what it does with them.

  Strings are sequences of UTF-16 code units.
\<close>

type_synonym jsstring = "16 word list"

subsection \<open>Doubles and singles\<close>

text \<open>\<open>pow2 e\<close> is \<open>2\<close> to the power \<open>e\<close>, for an integer \<open>e\<close>.\<close>

definition pow2 :: "int \<Rightarrow> rat" where
  "pow2 e = (if 0 \<le> e then 2 ^ nat e else 1 / 2 ^ nat (- e))"

text \<open>
  The binary exponent of a positive number: the \<open>e\<close> with
  \<open>pow2 e \<le> y < pow2 (e + 1)\<close>.
\<close>

definition expo :: "rat \<Rightarrow> int" where
  "expo y = (if 1 \<le> y then bitlen \<lfloor>y\<rfloor> - 1 else - bitlen (\<lceil>1 / y\<rceil> - 1))"

text \<open>The nearest integer, a tie going to the even one.\<close>

definition round_half_even :: "rat \<Rightarrow> int" where
  "round_half_even q =
     (let f = \<lfloor>q\<rfloor>; d = q - of_int f
      in if d < 1 / 2 then f else if 1 / 2 < d then f + 1 else if even f then f else f + 1)"

text \<open>
  Rounding to the nearest number with \<open>p\<close> significant bits and least exponent
  \<open>emin\<close> (below \<open>pow2 emin\<close> the numbers are equally spaced: the subnormals).
\<close>

definition round_to :: "nat \<Rightarrow> int \<Rightarrow> rat \<Rightarrow> rat" where
  "round_to p emin x =
     (if x = 0 then 0
      else (let e = max (expo \<bar>x\<bar>) emin; u = pow2 (e - (int p - 1))
            in of_int (round_half_even (x / u)) * u))"

definition fl64 :: "rat \<Rightarrow> rat" where
  "fl64 x = round_to 53 (- 1022) x"

definition fl32 :: "rat \<Rightarrow> rat" where
  "fl32 x = round_to 24 (- 126) x"

subsection \<open>JavaScript values\<close>

text \<open>
  What the code can catch: an error object with a name and a message, or
  \<open>undefined\<close> (the \<open>lastErr\<close> of a retry loop that never ran).
\<close>

datatype thrown = Err (err_name: jsstring) (err_message: jsstring) | Undefined

text \<open>A string literal of the source, as code units.\<close>

definition js_of :: "string \<Rightarrow> jsstring" where
  "js_of s = map (\<lambda>c. of_nat (of_char c)) s"

text \<open>The error of a \<open>DataView\<close> write outside its buffer.\<close>

definition range_error :: thrown where
  "range_error = Err (js_of ''RangeError'') (js_of ''Offset is outside the bounds of the DataView'')"

subsection \<open>Options\<close>

record opts =
  inputLang :: jsstring
  outputs :: "jsstring list"
  vadGateHigh :: rat
  vadGateLow :: rat
  padMs :: rat
  minSpeechMs :: rat
  maxSegmentMs :: rat
  preGain :: rat
  translationParallelWorkers :: "int option"

text \<open>
  The defaults of the destructuring in \<open>useMicStreamer\<close> (line 115); a decimal
  literal denotes the nearest double.
\<close>

definition default_opts :: "jsstring \<Rightarrow> jsstring list \<Rightarrow> opts" where
  "default_opts inl outs =
     \<lparr>inputLang = inl, outputs = outs, vadGateHigh = fl64 (1 / 100),
      vadGateLow = fl64 (4 / 1000), padMs = 70, minSpeechMs = 800, maxSegmentMs = 5000,
      preGain = fl64 (102 / 100), translationParallelWorkers = None\<rparr>"

subsection \<open>The resampler\<close>

text \<open>
  The inner loop of line 56: it advances \<open>pos\<close> while it is below \<open>nextPos\<close> and
  inside the buffer, adding the samples it passes to \<open>sum\<close>, a double.
\<close>

function group_loop :: "rat list \<Rightarrow> rat \<Rightarrow> nat \<Rightarrow> rat \<Rightarrow> nat \<Rightarrow> nat \<times> rat \<times> nat" where
  "group_loop float32 nextPos pos sm cnt =
     (if of_nat pos < nextPos \<and> pos < length float32
      then group_loop float32 nextPos (pos + 1) (fl64 (sm + float32 ! pos)) (cnt + 1)
      else (pos, sm, cnt))"
  by pat_completeness auto

termination
  by (relation "measure (\<lambda>(float32, nextPos, pos, sm, cnt). length float32 - pos)") auto

text \<open>
  The outer loop of lines 53-58; the result is the content of \<open>out\<close> from \<open>idx\<close> on.
  \<open>out\<close> is a \<open>Float32Array\<close>: the store of line 57 rounds the mean to a single.
\<close>

function resample_loop :: "rat list \<Rightarrow> rat \<Rightarrow> nat \<Rightarrow> nat \<Rightarrow> nat \<Rightarrow> rat list" where
  "resample_loop float32 ratio outLen idx pos =
     (if idx < outLen then
        (let nextPos = fl64 (of_nat (idx + 1) * ratio) in
         case group_loop float32 nextPos pos 0 0 of
           (pos', sm, cnt) \<Rightarrow>
             fl32 (if cnt \<noteq> 0 then fl64 (sm / of_nat cnt) else 0)
               # resample_loop float32 ratio outLen (idx + 1) pos')
      else [])"
  by pat_completeness auto

termination
  by (relation "measure (\<lambda>(float32, ratio, outLen, idx, pos). outLen - idx)") auto

declare group_loop.simps [simp del] resample_loop.simps [simp del]

text \<open>
  \<open>downsampleTo16k\<close>. The ratio and the length are doubles. For a ratio that is not
  positive the division of line 49 gives an infinite, negative or undefined length: the
  typed array constructor throws \<open>RangeError\<close> unless the buffer is empty, in which case
  the length is taken as 0. It also throws for a length of \<open>2^53\<close> or more; an
  allocation that the engine refuses for lack of memory is outside the model.
\<close>

definition downsampleTo16k :: "rat list \<Rightarrow> rat \<Rightarrow> thrown + rat list" where
  "downsampleTo16k float32 inRate =
     (let outRate = 16000 in
      if inRate = outRate then Inr float32
      else
        (let ratio = fl64 (inRate / outRate) in
         if ratio \<le> 0 then
           (if float32 = [] then Inr []
            else Inl (Err (js_of ''RangeError'') (js_of ''Invalid typed array length'')))
         else
           (let q = fl64 (of_nat (length float32) / ratio) in
            if 2 ^ 53 \<le> q
            then Inl (Err (js_of ''RangeError'') (js_of ''Invalid typed array length''))
            else Inr (resample_loop float32 ratio (nat \<lfloor>q\<rfloor>) 0 0))))"

subsection \<open>Segment state (the five refs)\<close>

record seg_state =
  segFrames :: "rat list list"
  segDurMs :: rat
  silenceMs :: rat
  speaking :: bool
  voicedMs :: rat

definition resetSegmentState :: seg_state where
  "resetSegmentState =
     \<lparr>segFrames = [], segDurMs = 0, silenceMs = 0, speaking = False, voicedMs = 0\<rparr>"

subsection \<open>The audio callback\<close>

text \<open>Line 181: a division and a multiplication, each rounded.\<close>

definition frameMs :: "rat list \<Rightarrow> rat" where
  "frameMs down = fl64 (fl64 (of_nat (length down) / 16000) * 1000)"

text \<open>
  \<open>onaudioprocess cfg st down energy\<close> is the body of the handler from line 181 on:
  \<open>down\<close> is the frame after resampling and pre-gain, \<open>energy\<close> is the value
  \<open>rmsEnergy(down)\<close> (a square root, taken as given). The result is the new state
  and, when the handler calls \<open>finalizeSegment()\<close>, the state that call reads: the
  synchronous part of \<open>finalizeSegment\<close> runs before \<open>resetSegmentState()\<close>.
  Every \<open>+=\<close> of the handler is an addition of doubles.
\<close>

definition onaudioprocess ::
  "opts \<Rightarrow> seg_state \<Rightarrow> rat list \<Rightarrow> rat \<Rightarrow> seg_state \<times> seg_state option" where
  "onaudioprocess cfg st down energy =
     (let fm = frameMs down in
      if \<not> speaking st then
        (if energy \<ge> vadGateHigh cfg then
           (st\<lparr>speaking := True,
               segFrames := segFrames st @ [down],
               segDurMs := fl64 (segDurMs st + fm),
               silenceMs := 0,
               voicedMs := fl64 (voicedMs st + fm)\<rparr>, None)
         else (st, None))
      else
        (let st1 = st\<lparr>segFrames := segFrames st @ [down],
                      segDurMs := fl64 (segDurMs st + fm)\<rparr> in
         if energy < vadGateLow cfg then
           (let st2 = st1\<lparr>silenceMs := fl64 (silenceMs st1 + fm)\<rparr> in
            if silenceMs st2 \<ge> padMs cfg \<or> segDurMs st2 \<ge> maxSegmentMs cfg
            then (resetSegmentState, Some st2) else (st2, None))
         else
           (let st2 = st1\<lparr>silenceMs := 0, voicedMs := fl64 (voicedMs st1 + fm)\<rparr> in
            if segDurMs st2 \<ge> maxSegmentMs cfg
            then (resetSegmentState, Some st2) else (st2, None))))"

text \<open>
  A stream of frames, in arrival order; the second component collects, in order, the
  states handed to \<open>finalizeSegment\<close>.
\<close>

fun run_frames ::
  "opts \<Rightarrow> seg_state \<Rightarrow> (rat list \<times> rat) list \<Rightarrow> seg_state \<times> seg_state list" where
  "run_frames cfg st [] = (st, [])"
| "run_frames cfg st ((down, energy) # fs) =
     (case onaudioprocess cfg st down energy of
        (st', fin) \<Rightarrow>
          (case run_frames cfg st' fs of
             (st'', fins) \<Rightarrow> (st'', (case fin of None \<Rightarrow> [] | Some s \<Rightarrow> [s]) @ fins)))"

subsection \<open>PCM conversion and the audio container\<close>

type_synonym byte = "8 word"

text \<open>
  Storing a number into an \<open>Int16Array\<close> truncates it towards zero and reduces it
  modulo \<open>2^16\<close>.
\<close>

definition js_trunc :: "rat \<Rightarrow> int" where
  "js_trunc x = (if x < 0 then - \<lfloor>- x\<rfloor> else \<lfloor>x\<rfloor>)"

definition toInt16 :: "rat \<Rightarrow> 16 word" where
  "toInt16 x = word_of_int (js_trunc x)"

definition floatTo16BitPCM :: "rat list \<Rightarrow> 16 word list" where
  "floatTo16BitPCM src =
     map (\<lambda>x. let s = max (- 1) (min 1 x) in
               toInt16 (if s < 0 then s * 32768 else s * 32767)) src"

text \<open>
  A \<open>DataView\<close> over an \<open>ArrayBuffer\<close> is a list of bytes; a write outside the
  buffer throws \<open>RangeError\<close>, which is \<open>None\<close> here.
\<close>

definition put_bytes :: "byte list \<Rightarrow> nat \<Rightarrow> byte list \<Rightarrow> byte list option" where
  "put_bytes view off bs =
     (if off + length bs \<le> length view
      then Some (take off view @ bs @ drop (off + length bs) view) else None)"

definition setUint8 :: "byte list \<Rightarrow> nat \<Rightarrow> byte \<Rightarrow> byte list option" where
  "setUint8 view off v = put_bytes view off [v]"

definition le16 :: "16 word \<Rightarrow> byte list" where
  "le16 v = [ucast v, ucast (drop_bit 8 v)]"

definition le32 :: "32 word \<Rightarrow> byte list" where
  "le32 v = [ucast v, ucast (drop_bit 8 v), ucast (drop_bit 16 v), ucast (drop_bit 24 v)]"

text \<open>The writes of the source all pass \<open>littleEndian = true\<close>.\<close>

definition setUint16 :: "byte list \<Rightarrow> nat \<Rightarrow> 16 word \<Rightarrow> byte list option" where
  "setUint16 view off v = put_bytes view off (le16 v)"

definition setInt16 :: "byte list \<Rightarrow> nat \<Rightarrow> 16 word \<Rightarrow> byte list option" where
  "setInt16 view off v = put_bytes view off (le16 v)"

definition setUint32 :: "byte list \<Rightarrow> nat \<Rightarrow> 32 word \<Rightarrow> byte list option" where
  "setUint32 view off v = put_bytes view off (le32 v)"

fun writeString :: "byte list \<Rightarrow> nat \<Rightarrow> jsstring \<Rightarrow> byte list option" where
  "writeString view off [] = Some view"
| "writeString view off (c # cs) =
     (case setUint8 view off (ucast c) of
        None \<Rightarrow> None
      | Some view' \<Rightarrow> writeString view' (off + 1) cs)"

text \<open>The loop of line 83: one \<open>setInt16\<close> per sample, the offset advancing by 2.\<close>

fun write_samples :: "byte list \<Rightarrow> nat \<Rightarrow> 16 word list \<Rightarrow> byte list option" where
  "write_samples view off [] = Some view"
| "write_samples view off (v # vs) =
     (case setInt16 view off v of
        None \<Rightarrow> None
      | Some view' \<Rightarrow> write_samples view' (off + 2) vs)"

definition encodeWav :: "16 word list \<Rightarrow> nat \<Rightarrow> byte list option" where
  "encodeWav int16 sampleRate =
     (let bytesPerSample = 2;
          blockAlign = 1 * bytesPerSample;
          byteRate = sampleRate * blockAlign;
          dataSize = length int16 * bytesPerSample;
          view = replicate (44 + dataSize) 0
      in do {
        v1 \<leftarrow> writeString view 0 (js_of ''RIFF'');
        v2 \<leftarrow> setUint32 v1 4 (of_nat (36 + dataSize));
        v3 \<leftarrow> writeString v2 8 (js_of ''WAVE'');
        v4 \<leftarrow> writeString v3 12 (js_of ''fmt '');
        v5 \<leftarrow> setUint32 v4 16 16;
        v6 \<leftarrow> writeString v5 20 [1, 0];
        v7 \<leftarrow> writeString v6 22 [1, 0];
        v8 \<leftarrow> setUint32 v7 24 (of_nat sampleRate);
        v9 \<leftarrow> setUint32 v8 28 (of_nat byteRate);
        v10 \<leftarrow> setUint16 v9 32 (of_nat blockAlign);
        v11 \<leftarrow> setUint16 v10 34 16;
        v12 \<leftarrow> writeString v11 36 (js_of ''data'');
        v13 \<leftarrow> setUint32 v12 40 (of_nat dataSize);
        write_samples v13 44 int16
      })"

subsection \<open>The synchronous part of \<open>finalizeSegment\<close>\<close>

record seg_stats =
  stat_durMs :: rat
  stat_voicedMs :: rat
  stat_voicedFraction :: rat
  stat_rms :: rat
  stat_peak :: rat

text \<open>
  What the call does before its first \<open>await\<close>: it returns without any effect
  (\<open>NoFrames\<close>, \<open>TooShort\<close>, \<open>LowQuality\<close>), throws (\<open>Threw\<close>, the container
  could not be written), or reaches the network part with the encoded audio and the
  statistics (\<open>Upload\<close>).
\<close>

datatype verdict = NoFrames | TooShort | LowQuality | Threw | Upload "byte list" seg_stats

definition peak_of :: "rat list \<Rightarrow> rat" where
  "peak_of merged = fold (\<lambda>x peak. if \<bar>x\<bar> > peak then \<bar>x\<bar> else peak) merged 0"

text \<open>Line 257: the quotient is a double.\<close>

definition voicedFraction_of :: "rat \<Rightarrow> rat \<Rightarrow> rat" where
  "voicedFraction_of voiced dur = (if voiced > 0 then fl64 (voiced / max 1 dur) else 0)"

text \<open>
  \<open>rms\<close> is the value \<open>rmsEnergy(merged)\<close>, taken as given like the frame energy; it
  only travels to the server inside the statistics.
\<close>

definition finalizeSegment_sync :: "opts \<Rightarrow> seg_state \<Rightarrow> rat \<Rightarrow> verdict" where
  "finalizeSegment_sync cfg st rms =
     (let frames = segFrames st; durMs = segDurMs st; voiced = voicedMs st in
      if frames = [] then NoFrames
      else if durMs < minSpeechMs cfg then TooShort
      else
        (let merged = concat frames;
             peak = peak_of merged;
             voicedFraction = voicedFraction_of voiced durMs
         in if voicedFraction < fl64 (18 / 100) \<and> durMs < 1200 then LowQuality
            else
              (case encodeWav (floatTo16BitPCM merged) 16000 of
                 None \<Rightarrow> Threw
               | Some wavBuf \<Rightarrow>
                   Upload wavBuf
                     \<lparr>stat_durMs = durMs, stat_voicedMs = voiced,
                      stat_voicedFraction = voicedFraction, stat_rms = rms,
                      stat_peak = peak\<rparr>)))"

subsection \<open>Requests and their outcomes\<close>

text \<open>
  A response: its \<open>ok\<close> flag, the text \<open>`${res.status} ${res.statusText}`\<close>, and
  what \<open>res.json()\<close> does: it never settles (\<open>None\<close>), rejects, or yields an
  object whose \<open>text\<close> field is absent (\<open>None\<close>) or a string.
\<close>

record response =
  ok :: bool
  status_line :: jsstring
  body :: "(thrown + jsstring option) option"

text \<open>One call of \<open>fetch\<close>: it resolves with a response or rejects.\<close>

datatype attempt = Resolves response | Rejects thrown

text \<open>
  \<open>fetchWithRetry\<close>: the outcomes of the successive \<open>fetch\<close> calls are given by the
  environment as a list, consumed one per iteration; a call whose outcome the list does
  not give never settles, and then neither does \<open>fetchWithRetry\<close> (\<open>None\<close>). The
  delay between two tries has no effect but time and is not modelled.
\<close>

fun retry_loop :: "nat \<Rightarrow> attempt list \<Rightarrow> thrown \<Rightarrow> (thrown + response) option" where
  "retry_loop 0 atts lastErr = Some (Inl lastErr)"
| "retry_loop (Suc n) [] lastErr = None"
| "retry_loop (Suc n) (Resolves res # atts) lastErr =
     (if \<not> ok res then retry_loop n atts (Err (js_of ''Error'') (status_line res))
      else Some (Inr res))"
| "retry_loop (Suc n) (Rejects e # atts) lastErr = retry_loop n atts e"

definition fetchWithRetry :: "nat \<Rightarrow> attempt list \<Rightarrow> (thrown + response) option" where
  "fetchWithRetry tries atts = retry_loop tries atts Undefined"

text \<open>\<open>String.prototype.trim\<close>: white space and line terminators of ECMAScript.\<close>

definition is_js_space :: "16 word \<Rightarrow> bool" where
  "is_js_space c \<longleftrightarrow>
     c = 0x9 \<or> c = 0xA \<or> c = 0xB \<or> c = 0xC \<or> c = 0xD \<or> c = 0x20 \<or> c = 0xA0 \<or>
     c = 0x1680 \<or> (0x2000 \<le> c \<and> c \<le> 0x200A) \<or> c = 0x2028 \<or> c = 0x2029 \<or>
     c = 0x202F \<or> c = 0x205F \<or> c = 0x3000 \<or> c = 0xFEFF"

definition trim :: "jsstring \<Rightarrow> jsstring" where
  "trim s = rev (dropWhile is_js_space (rev (dropWhile is_js_space s)))"

text \<open>\<open>(json?.text || "").trim()\<close>\<close>

definition text_of :: "jsstring option \<Rightarrow> jsstring" where
  "text_of j = trim (case j of None \<Rightarrow> [] | Some t \<Rightarrow> t)"

text \<open>
  A request with retry followed by \<open>res.json()\<close> and the trimming: it never settles
  (\<open>None\<close>), throws, or yields the trimmed text.
\<close>

definition request_text :: "attempt list \<Rightarrow> (thrown + jsstring) option" where
  "request_text atts =
     (case fetchWithRetry 2 atts of
        None \<Rightarrow> None
      | Some (Inl e) \<Rightarrow> Some (Inl e)
      | Some (Inr res) \<Rightarrow>
          (case body res of
             None \<Rightarrow> None
           | Some (Inl e) \<Rightarrow> Some (Inl e)
           | Some (Inr j) \<Rightarrow> Some (Inr (text_of j))))"

subsection \<open>Aborting a request\<close>

text \<open>
  A fetch whose signal is aborted, before or while it is under way, rejects with an error
  named \<open>AbortError\<close>. \<open>after_abort n atts\<close> are the outcomes of the fetches of a
  request whose controller is aborted after \<open>n\<close> of them have settled.
\<close>

definition abort_error :: thrown where
  "abort_error = Err (js_of ''AbortError'') (js_of ''signal is aborted without reason'')"

definition after_abort :: "nat \<Rightarrow> attempt list \<Rightarrow> attempt list" where
  "after_abort n atts = take n atts @ replicate 2 (Rejects abort_error)"

text \<open>A fetch that did not deliver a usable response: the retry loop goes on after it.\<close>

definition failed_attempt :: "attempt \<Rightarrow> bool" where
  "failed_attempt a = (case a of Resolves res \<Rightarrow> \<not> ok res | Rejects e \<Rightarrow> True)"

subsection \<open>The translation workers\<close>

text \<open>
  \<open>queue\<close>, \<open>results\<close> and the runners of lines 294-321. A worker is either waiting
  for \<open>translateOne\<close> of the target at a position of \<open>outputs\<close>, or has left its loop
  (\<open>None\<close>). \<open>started\<close> lists the targets for which \<open>translateOne\<close> was called.
\<close>

record pool =
  queue :: "jsstring list"
  next_pos :: nat
  workers :: "(nat \<times> jsstring) option list"
  results :: "(jsstring \<times> jsstring) list"
  started :: "jsstring list"

text \<open>
  The head of a worker's loop: leave when the queue is empty; otherwise shift a target,
  leave if it is the empty string, else call \<open>translateOne\<close> and wait.
\<close>

definition worker_loop :: "pool \<Rightarrow> (nat \<times> jsstring) option \<times> pool" where
  "worker_loop p =
     (case queue p of
        [] \<Rightarrow> (None, p)
      | lang # q \<Rightarrow>
          if lang = [] then (None, p\<lparr>queue := q, next_pos := next_pos p + 1\<rparr>)
          else (Some (next_pos p, lang),
                p\<lparr>queue := q, next_pos := next_pos p + 1, started := started p @ [lang]\<rparr>))"

fun spawn :: "nat \<Rightarrow> pool \<Rightarrow> pool" where
  "spawn 0 p = p"
| "spawn (Suc n) p =
     (case worker_loop p of (w, p') \<Rightarrow> spawn n (p'\<lparr>workers := workers p' @ [w]\<rparr>))"

text \<open>
  One runner per worker is started, each going through the head of its loop at once
  (lines 313-321). The number of workers is
  \<open>Math.max(1, Math.min(outputs.length || 1, translationParallelWorkers ?? (outputs.length || 1)))\<close>,
  with \<open>translationParallelWorkers\<close> taken to be an integer when given.
\<close>

definition maxWorkers :: "opts \<Rightarrow> int" where
  "maxWorkers cfg =
     (let n = (if outputs cfg = [] then 1 else int (length (outputs cfg)))
      in max 1 (min n (case translationParallelWorkers cfg of None \<Rightarrow> n | Some k \<Rightarrow> k)))"

definition start_pool :: "opts \<Rightarrow> pool" where
  "start_pool cfg =
     spawn (nat (maxWorkers cfg))
       \<lparr>queue = outputs cfg, next_pos = 0, workers = [], results = [], started = []\<rparr>"

text \<open>
  The translation call of worker \<open>w\<close> settles. \<open>env k\<close> gives the outcomes of the
  fetches for the target at position \<open>k\<close>. A text that is not empty is pushed; a thrown
  error is swallowed; then the worker goes round its loop. Nothing happens when the
  worker has left or its call never settles.
\<close>

definition settle :: "(nat \<Rightarrow> attempt list) \<Rightarrow> nat \<Rightarrow> pool \<Rightarrow> pool" where
  "settle env w p =
     (if w < length (workers p) then
        (case workers p ! w of
           None \<Rightarrow> p
         | Some (k, lang) \<Rightarrow>
             (case request_text (env k) of
                None \<Rightarrow> p
              | Some r \<Rightarrow>
                  (let p1 = (case r of
                               Inl e \<Rightarrow> p
                             | Inr t \<Rightarrow> if t \<noteq> [] then p\<lparr>results := results p @ [(lang, t)]\<rparr> else p)
                   in case worker_loop p1 of
                        (w', p2) \<Rightarrow> p2\<lparr>workers := (workers p2)[w := w']\<rparr>)))
      else p)"

text \<open>The calls settle in the order the environment chooses: a list of worker numbers.\<close>

definition run_pool :: "(nat \<Rightarrow> attempt list) \<Rightarrow> nat list \<Rightarrow> pool \<Rightarrow> pool" where
  "run_pool env sched p = fold (settle env) sched p"

text \<open>\<open>Promise.allSettled(runners)\<close> resolves once every worker has left its loop.\<close>

definition all_settled :: "pool \<Rightarrow> bool" where
  "all_settled p \<longleftrightarrow> list_all (\<lambda>w. w = None) (workers p)"

fun indexOf :: "'a list \<Rightarrow> 'a \<Rightarrow> int" where
  "indexOf [] x = - 1"
| "indexOf (y # ys) x =
     (if y = x then 0 else (let r = indexOf ys x in if r < 0 then - 1 else r + 1))"

text \<open>
  \<open>results.sort((a, b) => outputs.indexOf(a.lang) - outputs.indexOf(b.lang))\<close>; the sort
  of an array is stable.
\<close>

definition sort_results :: "jsstring list \<Rightarrow> (jsstring \<times> jsstring) list \<Rightarrow> (jsstring \<times> jsstring) list" where
  "sort_results outs rs = sort_key (\<lambda>r. indexOf outs (fst r)) rs"

subsection \<open>The network part of \<open>finalizeSegment\<close>\<close>

text \<open>
  What can be observed of a call: the transcription request, a translation request for a
  target, and the two callbacks of the consumer (\<open>OnError\<close> stands for
  \<open>onError?.(msg)\<close>).
\<close>

datatype event =
    Transcribe
  | Translate jsstring
  | OnResult jsstring "(jsstring \<times> jsstring) list"
  | OnError jsstring

text \<open>\<open>String(e)\<close> and \<open>e?.message || String(e)\<close>\<close>

definition to_String :: "thrown \<Rightarrow> jsstring" where
  "to_String e =
     (case e of
        Undefined \<Rightarrow> js_of ''undefined''
      | Err n m \<Rightarrow> if n = [] then m else if m = [] then n else n @ js_of '': '' @ m)"

definition error_text :: "thrown \<Rightarrow> jsstring" where
  "error_text e =
     (case e of
        Undefined \<Rightarrow> to_String e
      | Err n m \<Rightarrow> if m \<noteq> [] then m else to_String e)"

definition is_abort :: "thrown \<Rightarrow> bool" where
  "is_abort e \<longleftrightarrow> (case e of Undefined \<Rightarrow> False | Err n m \<Rightarrow> n = js_of ''AbortError'')"

text \<open>The \<open>catch\<close> of lines 329-332.\<close>

definition on_catch :: "thrown \<Rightarrow> event list" where
  "on_catch e = (if is_abort e then [] else [OnError (error_text e)])"

text \<open>
  Lines 273-332. \<open>stt\<close> gives the outcomes of the fetches of the transcription request,
  \<open>env\<close> those of the translation requests, \<open>sched\<close> the order in which the
  translation calls settle. The consumer's \<open>onResult\<close> is taken not to throw.
\<close>

definition finalizeSegment_async ::
  "opts \<Rightarrow> attempt list \<Rightarrow> (nat \<Rightarrow> attempt list) \<Rightarrow> nat list \<Rightarrow> event list" where
  "finalizeSegment_async cfg stt env sched =
     Transcribe #
     (case request_text stt of
        None \<Rightarrow> []
      | Some (Inl e) \<Rightarrow> on_catch e
      | Some (Inr transcript) \<Rightarrow>
          if transcript = [] then []
          else
            (let p = run_pool env sched (start_pool cfg) in
             map Translate (started p) @
             (if all_settled p
              then [OnResult transcript (sort_results (outputs cfg) (results p))]
              else [])))"

subsection \<open>The request controller and the whole call\<close>

text \<open>
  \<open>reqCtrlRef\<close>: controllers are numbered; \<open>aborted\<close> holds those whose \<open>abort()\<close>
  was called.
\<close>

record ctrl =
  reqCtrl :: "nat option"
  aborted :: "nat set"
  fresh :: nat

text \<open>Lines 269-271.\<close>

definition new_request :: "ctrl \<Rightarrow> ctrl" where
  "new_request c =
     \<lparr>reqCtrl = Some (fresh c),
      aborted = (case reqCtrl c of None \<Rightarrow> aborted c | Some a \<Rightarrow> insert a (aborted c)),
      fresh = fresh c + 1\<rparr>"

text \<open>The part of \<open>cleanup\<close> that concerns requests (lines 337 and 342).\<close>

definition cleanup_ctrl :: "ctrl \<Rightarrow> ctrl" where
  "cleanup_ctrl c =
     c\<lparr>reqCtrl := None,
       aborted := (case reqCtrl c of None \<Rightarrow> aborted c | Some a \<Rightarrow> insert a (aborted c))\<rparr>"

text \<open>
  One call of \<open>finalizeSegment\<close>, with the \<open>catch\<close> of its caller
  (\<open>finalizeSegment().catch(e => onError?.(String(e)))\<close>): the controller state after
  the synchronous part, and everything the call does.
\<close>

definition finalizeSegment ::
  "opts \<Rightarrow> seg_state \<Rightarrow> rat \<Rightarrow> ctrl \<Rightarrow> attempt list \<Rightarrow> (nat \<Rightarrow> attempt list) \<Rightarrow> nat list
     \<Rightarrow> ctrl \<times> event list" where
  "finalizeSegment cfg st rms c stt env sched =
     (case finalizeSegment_sync cfg st rms of
        Upload wavBuf stats \<Rightarrow> (new_request c, finalizeSegment_async cfg stt env sched)
      | Threw \<Rightarrow> (c, [OnError (to_String range_error)])
      | v \<Rightarrow> (c, []))"

subsection \<open>The specification's view\<close>

text \<open>
  The resampler as the specification describes it, with the formulas read over the real
  numbers: there are \<open>\<lfloor>N \<cdot> 16000 / Rin\<rfloor>\<close> output samples.
\<close>

definition spec_length :: "nat \<Rightarrow> rat \<Rightarrow> nat" where
  "spec_length n inRate = nat \<lfloor>of_nat n * 16000 / inRate\<rfloor>"

text \<open>
  The resampler with the formulas read over the doubles. The groups follow one another:
  group \<open>k\<close> starts where group \<open>k - 1\<close> ended and ends before the first index that is
  not below the double \<open>(k + 1) \<cdot> ratio\<close>, or at the end of a buffer of \<open>n\<close> samples.
  The mean of a group is its sum, accumulated from the left in doubles, divided by its
  size; the mean of an empty group is 0.
\<close>

fun group_start :: "nat \<Rightarrow> rat \<Rightarrow> nat \<Rightarrow> nat" where
  "group_start n ratio 0 = 0"
| "group_start n ratio (Suc k) =
     max (group_start n ratio k) (min n (nat \<lceil>fl64 (of_nat (Suc k) * ratio)\<rceil>))"

definition group_of :: "rat list \<Rightarrow> rat \<Rightarrow> nat \<Rightarrow> rat list" where
  "group_of xs ratio k =
     map (nth xs) [group_start (length xs) ratio k..<group_start (length xs) ratio (Suc k)]"

definition sum64 :: "rat list \<Rightarrow> rat" where
  "sum64 g = foldl (\<lambda>a x. fl64 (a + x)) 0 g"

definition mean64 :: "rat list \<Rightarrow> rat" where
  "mean64 g = (if g = [] then 0 else fl64 (sum64 g / of_nat (length g)))"

definition length64 :: "nat \<Rightarrow> rat \<Rightarrow> nat" where
  "length64 n inRate = nat \<lfloor>fl64 (of_nat n / fl64 (inRate / 16000))\<rfloor>"

text \<open>
  The container as the specification describes it: a 44-byte RIFF/WAVE header with PCM
  format tag 1, one channel, sample rate 16000, byte rate 32000, block alignment 2 and
  16 bits per sample, whose data chunk announces \<open>2n\<close> bytes. \<open>wav_layout\<close> is the
  same layout for any sample rate.
\<close>

definition ascii :: "string \<Rightarrow> byte list" where
  "ascii s = map (\<lambda>c. of_nat (of_char c)) s"

definition wav_layout :: "nat \<Rightarrow> nat \<Rightarrow> byte list" where
  "wav_layout n rate =
     ascii ''RIFF'' @ le32 (of_nat (36 + 2 * n)) @ ascii ''WAVE'' @
     ascii ''fmt '' @ le32 16 @ le16 1 @ le16 1 @ le32 (of_nat rate) @
     le32 (of_nat (rate * 2)) @ le16 2 @ le16 16 @ ascii ''data'' @
     le32 (of_nat (2 * n))"

definition riff_header :: "nat \<Rightarrow> byte list" where
  "riff_header n =
     ascii ''RIFF'' @ le32 (of_nat (36 + 2 * n)) @ ascii ''WAVE'' @
     ascii ''fmt '' @ le32 16 @ le16 1 @ le16 1 @ le32 16000 @
     le32 32000 @ le16 2 @ le16 16 @ ascii ''data'' @
     le32 (of_nat (2 * n))"

text \<open>
  The value of a PCM sample: clamp to \<open>[-1, 1]\<close>, scale a negative sample by 32768 and
  any other by 32767, drop the fraction.
\<close>

definition pcm_value :: "rat \<Rightarrow> int" where
  "pcm_value x =
     (let s = (if x < - 1 then - 1 else if x > 1 then 1 else x)
      in if s < 0 then - \<lfloor>- (s * 32768)\<rfloor> else \<lfloor>s * 32767\<rfloor>)"

text \<open>A little-endian byte sequence read as a number.\<close>

definition le_nat :: "byte list \<Rightarrow> nat" where
  "le_nat bs = foldr (\<lambda>b acc. unat b + 256 * acc) bs 0"

text \<open>
  The duration the handler has accumulated after the frames \<open>ds\<close>, starting from \<open>a\<close>:
  one rounded addition per frame.
\<close>

definition acc_from :: "rat \<Rightarrow> rat list list \<Rightarrow> rat" where
  "acc_from a ds = foldl (\<lambda>a d. fl64 (a + frameMs d)) a ds"

definition acc_ms :: "(rat list \<times> rat) list \<Rightarrow> rat" where
  "acc_ms fs = acc_from 0 (map fst fs)"

text \<open>The state in which a voiced segment made of the frames \<open>fs\<close> is handed over.\<close>

definition voiced_segment :: "(rat list \<times> rat) list \<Rightarrow> seg_state" where
  "voiced_segment fs =
     \<lparr>segFrames = map fst fs, segDurMs = acc_ms fs, silenceMs = 0, speaking = True,
      voicedMs = acc_ms fs\<rparr>"

text \<open>
  What the specification expects to be delivered: the targets in the order of the list,
  each with the text of its call, leaving out those whose call did not yield a text.
\<close>

definition translated :: "(nat \<Rightarrow> attempt list) \<Rightarrow> nat \<Rightarrow> bool" where
  "translated env k = (case request_text (env k) of Some (Inr t) \<Rightarrow> t \<noteq> [] | _ \<Rightarrow> False)"

definition translation_of :: "(nat \<Rightarrow> attempt list) \<Rightarrow> nat \<Rightarrow> jsstring" where
  "translation_of env k = (case request_text (env k) of Some (Inr t) \<Rightarrow> t | _ \<Rightarrow> [])"

definition expected_translations ::
  "jsstring list \<Rightarrow> (nat \<Rightarrow> attempt list) \<Rightarrow> (jsstring \<times> jsstring) list" where
  "expected_translations outs env =
     map (\<lambda>k. (outs ! k, translation_of env k)) (filter (translated env) [0..<length outs])"

text \<open>
  A translation call that succeeds with a text that is empty after trimming, and one that
  throws.
\<close>

definition blank_success :: "attempt list \<Rightarrow> bool" where
  "blank_success atts =
     (case fetchWithRetry 2 atts of
        Some (Inr res) \<Rightarrow> (case body res of Some (Inr j) \<Rightarrow> text_of j = [] | _ \<Rightarrow> False)
      | _ \<Rightarrow> False)"

definition call_failed :: "attempt list \<Rightarrow> bool" where
  "call_failed atts = (case request_text atts of Some (Inl e) \<Rightarrow> True | _ \<Rightarrow> False)"

subsection \<open>The invariant of the worker pool\<close>

text \<open>
  The invariant of the worker pool, for a target list without the empty string: the queue
  is what is left of the list; a worker that has left its loop found the queue empty; a
  waiting worker holds a position already taken from the queue; and the results pushed so
  far, together with those the waiting workers will push, are those of the positions
  taken.
\<close>

definition pend :: "jsstring list \<Rightarrow> (nat \<Rightarrow> attempt list) \<Rightarrow> (nat \<times> jsstring) option
    \<Rightarrow> (jsstring \<times> jsstring) multiset" where
  "pend outs env w =
     (case w of
        None \<Rightarrow> {#}
      | Some (k, l) \<Rightarrow> if translated env k then {#(outs ! k, translation_of env k)#} else {#})"

definition worker_ok :: "jsstring list \<Rightarrow> pool \<Rightarrow> (nat \<times> jsstring) option \<Rightarrow> bool" where
  "worker_ok outs p w =
     (case w of None \<Rightarrow> queue p = [] | Some (k, l) \<Rightarrow> k < next_pos p \<and> l = outs ! k)"

definition pool_inv :: "jsstring list \<Rightarrow> (nat \<Rightarrow> attempt list) \<Rightarrow> pool \<Rightarrow> bool" where
  "pool_inv outs env p \<longleftrightarrow>
     next_pos p \<le> length outs \<and>
     queue p = drop (next_pos p) outs \<and>
     started p = take (next_pos p) outs \<and>
     list_all (worker_ok outs p) (workers p) \<and>
     mset (results p) + sum_list (map (pend outs env) (workers p))
       = mset (map (\<lambda>k. (outs ! k, translation_of env k))
                (filter (translated env) [0..<next_pos p]))"

subsection \<open>Concrete inputs\<close>

text \<open>
  A frame of 2048 samples at 16 kHz (128 ms) of constant amplitude \<open>0.05\<close>, whose RMS
  energy is \<open>0.05\<close>.
\<close>

definition loud_frame :: "rat list \<times> rat" where
  "loud_frame = (replicate 2048 (1 / 20), 1 / 20)"

text \<open>A segment of two such frames, the second one silent: 256 ms, half of it voiced.\<close>

definition short_quiet_segment :: seg_state where
  "short_quiet_segment =
     \<lparr>segFrames = [replicate 2048 (1 / 20), replicate 2048 0], segDurMs = 256,
      silenceMs = 128, speaking = True, voicedMs = 128\<rparr>"

text \<open>
  Two segments of eight 128 ms frames: one voiced frame followed by seven silent ones, and
  seven voiced frames followed by a silent one.
\<close>

definition breath_segment :: seg_state where
  "breath_segment =
     \<lparr>segFrames = replicate 2048 (1 / 20) # replicate 7 (replicate 2048 0), segDurMs = 1024,
      silenceMs = 896, speaking = True, voicedMs = 128\<rparr>"

definition yes_segment :: seg_state where
  "yes_segment =
     \<lparr>segFrames = replicate 7 (replicate 2048 (1 / 20)) @ [replicate 2048 0], segDurMs = 1024,
      silenceMs = 128, speaking = True, voicedMs = 896\<rparr>"

text \<open>
  A controller state with no request under way, and an environment in which no fetch ever
  settles.
\<close>

definition no_request :: ctrl where
  "no_request = \<lparr>reqCtrl = None, aborted = {}, fresh = 0\<rparr>"

definition silent_env :: "nat \<Rightarrow> attempt list" where
  "silent_env k = []"

text \<open>A successful reply of an endpoint with a given text.\<close>

definition text_reply :: "string \<Rightarrow> response" where
  "text_reply s = \<lparr>ok = True, status_line = js_of ''200 OK'', body = Some (Inr (Some (js_of s)))\<rparr>"

text \<open>A successful reply of the transcription endpoint with an empty text.\<close>

definition empty_transcript_reply :: response where
  "empty_transcript_reply = \<lparr>ok = True, status_line = js_of ''200 OK'', body = Some (Inr (Some []))\<rparr>"

text \<open>
  Replies of the endpoints with a text of blanks (a space, an ideographic space, a line
  feed) and with the text \<open>hi\<close>, and a fetch that fails on the network.
\<close>

definition blank_reply :: response where
  "blank_reply =
     \<lparr>ok = True, status_line = js_of ''200 OK'', body = Some (Inr (Some [0x20, 0x3000, 0xA]))\<rparr>"

definition hi_reply :: response where
  "hi_reply = \<lparr>ok = True, status_line = js_of ''200 OK'', body = Some (Inr (Some (js_of ''hi'')))\<rparr>"

definition network_error :: thrown where
  "network_error = Err (js_of ''TypeError'') (js_of ''Failed to fetch'')"

definition blank_env :: "nat \<Rightarrow> attempt list" where
  "blank_env k = [Resolves blank_reply]"

definition failing_env :: "nat \<Rightarrow> attempt list" where
  "failing_env k = [Rejects network_error, Rejects network_error]"

text \<open>
  Three targets; the call for the first yields \<open>uno\<close>, the call for the second fails on
  the network twice, the call for the third yields \<open>tres\<close> at its second try.
\<close>

definition abc :: "jsstring list" where
  "abc = [js_of ''es'', js_of ''ja'', js_of ''fr'']"

definition abc_env :: "nat \<Rightarrow> attempt list" where
  "abc_env k =
     (if k = 0 then [Resolves (text_reply ''uno'')]
      else if k = 1 then [Rejects network_error, Rejects network_error]
      else [Rejects network_error, Resolves (text_reply ''tres'')])"

text \<open>
  Target lists with a repeated and with an empty entry; the calls for the three
  positions yield \<open>uno\<close>, \<open>deux\<close> and \<open>dos\<close>.
\<close>

definition es_fr_es :: "jsstring list" where
  "es_fr_es = [js_of ''es'', js_of ''fr'', js_of ''es'']"

definition es_blank_fr :: "jsstring list" where
  "es_blank_fr = [js_of ''es'', [], js_of ''fr'']"

definition es_fr_es_env :: "nat \<Rightarrow> attempt list" where
  "es_fr_es_env k =
     (if k = 0 then [Resolves (text_reply ''uno'')]
      else if k = 1 then [Resolves (text_reply ''deux'')]
      else [Resolves (text_reply ''dos'')])"

text \<open>
  The environment of translation calls that are all under way, none of their fetches
  settled, when the controller is aborted.
\<close>

definition aborted_env :: "nat \<Rightarrow> attempt list" where
  "aborted_env k = after_abort 0 []"

section \<open>Properties\<close>

subsection \<open>Rounding\<close>

text \<open>
  \<open>expo\<close> is the binary exponent, and the rounded number is within half a unit in the
  last place of the number.
\<close>

lemma pow2_pos: "0 < pow2 e"
  by (simp add: pow2_def)

lemma pow2_add1: "pow2 (e + 1) = 2 * pow2 e"
proof (cases "0 \<le> e")
  case True
  then have "nat (e + 1) = Suc (nat e)" by simp
  with True show ?thesis by (simp add: pow2_def)
next
  case False
  then have "nat (- e) = Suc (nat (- (e + 1)))" by simp
  with False show ?thesis by (auto simp add: pow2_def)
qed

lemma expo_bounds:
  assumes "0 < y"
  shows "pow2 (expo y) \<le> y \<and> y < pow2 (expo y + 1)"
proof (cases "1 \<le> y")
  case True
  define n where "n = \<lfloor>y\<rfloor>"
  have n: "0 < n" using True by (simp add: n_def)
  have b: "1 \<le> bitlen n" using n by (simp add: bitlen_alt_def)
  from bitlen_bounds [OF n] have lo: "2 ^ nat (bitlen n - 1) \<le> n" and hi: "n < 2 ^ nat (bitlen n)"
    by simp_all
  have e: "expo y = bitlen n - 1" using True by (simp add: expo_def n_def)
  have "(of_int (2 ^ nat (bitlen n - 1)) :: rat) \<le> of_int n" using lo by (simp only: of_int_le_iff)
  also have "\<dots> \<le> y" unfolding n_def by linarith
  finally have 1: "pow2 (expo y) \<le> y" using b by (simp add: e pow2_def)
  have "n + 1 \<le> 2 ^ nat (bitlen n)" using hi by simp
  then have "(of_int (n + 1) :: rat) \<le> of_int (2 ^ nat (bitlen n))" by (simp only: of_int_le_iff)
  moreover have "y < of_int (n + 1)" unfolding n_def by linarith
  ultimately have "y < 2 ^ nat (bitlen n)" by simp
  then have 2: "y < pow2 (expo y + 1)" using b by (simp add: e pow2_def)
  from 1 2 show ?thesis ..
next
  case False
  define m where "m = \<lceil>1 / y\<rceil> - 1"
  have y1: "1 < 1 / y" using False assms by simp
  then have m: "0 < m" unfolding m_def by linarith
  have e: "expo y = - bitlen m" using False by (simp add: expo_def m_def)
  have b: "1 \<le> bitlen m" using m by (simp add: bitlen_alt_def)
  from bitlen_bounds [OF m] have lo: "2 ^ nat (bitlen m - 1) \<le> m" and hi: "m < 2 ^ nat (bitlen m)"
    by simp_all
  have my: "of_int m < 1 / y" unfolding m_def by linarith
  have "(of_int (2 ^ nat (bitlen m - 1)) :: rat) \<le> of_int m"
    using lo by (simp only: of_int_le_iff)
  then have "(2::rat) ^ nat (bitlen m - 1) \<le> of_int m" by simp
  from this my have "(2::rat) ^ nat (bitlen m - 1) < 1 / y" by (rule order_le_less_trans)
  then have "y < 1 / 2 ^ nat (bitlen m - 1)"
    using assms by (simp add: field_simps)
  moreover have "pow2 (- bitlen m + 1) = 1 / 2 ^ nat (bitlen m - 1)"
    using b by (auto simp add: pow2_def intro!: arg_cong [where f = "\<lambda>i. (2::rat) ^ i"])
  ultimately have 2: "y < pow2 (expo y + 1)" by (simp add: e)
  have "m + 1 \<le> 2 ^ nat (bitlen m)" using hi by simp
  then have "(of_int (m + 1) :: rat) \<le> of_int (2 ^ nat (bitlen m))" by (simp only: of_int_le_iff)
  moreover have "1 / y \<le> of_int (m + 1)" unfolding m_def by linarith
  ultimately have "1 / y \<le> 2 ^ nat (bitlen m)" by simp
  then have "1 / 2 ^ nat (bitlen m) \<le> y" using assms by (simp add: field_simps)
  moreover have "pow2 (- bitlen m) = 1 / 2 ^ nat (bitlen m)"
    using b by (simp add: pow2_def)
  ultimately have 1: "pow2 (expo y) \<le> y" by (simp add: e)
  from 1 2 show ?thesis ..
qed

lemma round_half_even_error: "\<bar>of_int (round_half_even q) - q\<bar> \<le> 1 / 2"
proof -
  define f where "f = \<lfloor>q\<rfloor>"
  have f: "of_int f \<le> q" "q < of_int f + 1" unfolding f_def by linarith+
  consider "q - of_int f < 1 / 2" | "1 / 2 < q - of_int f" | "q - of_int f = 1 / 2"
    by linarith
  then show ?thesis
  proof cases
    case 1
    then have "round_half_even q = f" by (simp add: round_half_even_def f_def)
    with f 1 show ?thesis by simp
  next
    case 2
    then have "round_half_even q = f + 1" by (simp add: round_half_even_def f_def)
    with f 2 show ?thesis by simp
  next
    case 3
    then have "round_half_even q = f \<or> round_half_even q = f + 1"
      by (simp add: round_half_even_def f_def Let_def)
    with f 3 show ?thesis by auto
  qed
qed

lemma round_to_error:
  "\<bar>round_to p emin x - x\<bar> \<le> pow2 (max (expo \<bar>x\<bar>) emin - (int p - 1)) / 2"
proof (cases "x = 0")
  case True
  then show ?thesis using pow2_pos [of "max (expo \<bar>x\<bar>) emin - (int p - 1)"] by (simp add: round_to_def)
next
  case False
  define u where "u = pow2 (max (expo \<bar>x\<bar>) emin - (int p - 1))"
  have u: "0 < u" by (simp add: u_def pow2_pos)
  have "round_to p emin x = of_int (round_half_even (x / u)) * u"
    unfolding round_to_def Let_def u_def using False by simp
  then have "round_to p emin x - x = (of_int (round_half_even (x / u)) - x / u) * u"
    using u by (simp add: field_simps)
  then have "\<bar>round_to p emin x - x\<bar> = \<bar>of_int (round_half_even (x / u)) - x / u\<bar> * u"
    using u by (simp add: abs_mult)
  also have "\<dots> \<le> (1 / 2) * u"
    using u round_half_even_error [of "x / u"] by (intro mult_right_mono) simp_all
  finally show ?thesis by (simp add: u_def)
qed

lemma fl64_error:
  "\<bar>fl64 x - x\<bar> \<le> pow2 (max (expo \<bar>x\<bar>) (- 1022) - 52) / 2"
  using round_to_error [of 53 "- 1022" x] by (simp add: fl64_def)

lemma fl32_error:
  "\<bar>fl32 x - x\<bar> \<le> pow2 (max (expo \<bar>x\<bar>) (- 126) - 23) / 2"
  using round_to_error [of 24 "- 126" x] by (simp add: fl32_def)

text \<open>Integers below \<open>2^53\<close> in magnitude are doubles: rounding leaves them as they are.\<close>

lemma round_half_even_of_int: "round_half_even (of_int m) = m"
  by (simp add: round_half_even_def)

lemma expo_of_int:
  assumes "0 < n"
  shows "expo (of_int n) = bitlen n - 1"
  using assms by (simp add: expo_def)

lemma fl64_of_int:
  assumes "\<bar>n\<bar> < 2 ^ 53"
  shows "fl64 (of_int n) = of_int n"
proof (cases "n = 0")
  case True
  then show ?thesis by (simp add: fl64_def round_to_def)
next
  case False
  define m where "m = \<bar>n\<bar>"
  have m: "0 < m" "m < 2 ^ 53" using False assms by (simp_all add: m_def)
  have b1: "1 \<le> bitlen m" using m(1) by (simp add: bitlen_alt_def)
  have "2 ^ nat (bitlen m - 1) \<le> m" using bitlen_bounds [OF m(1)] by simp
  with m(2) have "(2::int) ^ nat (bitlen m - 1) < 2 ^ 53" by linarith
  then have "nat (bitlen m - 1) < 53"
    using power_less_imp_less_exp [of "2::int" "nat (bitlen m - 1)" 53] by simp
  with b1 have b2: "bitlen m \<le> 53" by linarith
  define k where "k = nat (53 - bitlen m)"
  have e: "expo \<bar>of_int n\<bar> = bitlen m - 1"
    using expo_of_int [OF m(1)] by (simp add: m_def)
  have mx: "max (bitlen m - 1) (- 1022) = bitlen m - 1" using b1 by simp
  have u: "pow2 (bitlen m - 53) = 1 / 2 ^ k"
    using b2 by (auto simp add: pow2_def k_def intro!: arg_cong [where f = "\<lambda>i. (2::rat) ^ i"])
  have q: "of_int n / (1 / 2 ^ k) = (of_int (n * 2 ^ k) :: rat)" by simp
  have "fl64 (of_int n)
      = of_int (round_half_even (of_int n / pow2 (bitlen m - 53))) * pow2 (bitlen m - 53)"
    using False by (simp add: fl64_def round_to_def e mx Let_def)
  also have "\<dots> = of_int (round_half_even (of_int n / (1 / 2 ^ k))) * (1 / 2 ^ k)"
    by (simp only: u)
  also have "\<dots> = of_int (n * 2 ^ k) * (1 / 2 ^ k)"
    by (simp only: q round_half_even_of_int)
  also have "\<dots> = of_int n" by simp
  finally show ?thesis .
qed

lemma fl64_of_nat: "n < 2 ^ 53 \<Longrightarrow> fl64 (of_nat n) = of_nat n"
  using fl64_of_int [of "int n"] by simp

lemma fl64_0 [simp]: "fl64 0 = 0"
  by (simp add: fl64_def round_to_def)

lemma fl32_0 [simp]: "fl32 0 = 0"
  by (simp add: fl32_def round_to_def)

subsection \<open>The resampler\<close>

lemma less_ceiling_nat_iff:
  fixes x :: rat
  shows "(of_nat i < x) = (i < nat \<lceil>x\<rceil>)"
proof -
  have "(of_nat i < x) = (of_int (int i) < x)" by simp
  also have "\<dots> = (int i < \<lceil>x\<rceil>)" by (simp only: less_ceiling_iff)
  also have "\<dots> = (i < nat \<lceil>x\<rceil>)" by linarith
  finally show ?thesis .
qed

lemma group_loop_step:
  assumes "pos < b" "b \<le> length xs" "\<And>i. (of_nat i < nextPos \<and> i < length xs) = (i < b)"
  shows "group_loop xs nextPos pos s c
       = (b, foldl (\<lambda>a x. fl64 (a + x)) s (map (nth xs) [pos..<b]), c + (b - pos))"
  using assms(1)
proof (induction "b - pos" arbitrary: pos s c)
  case 0
  then show ?case by simp
next
  case (Suc n)
  have c: "of_nat pos < nextPos \<and> pos < length xs"
    using Suc.prems by (simp only: assms(3))
  have u: "[pos..<b] = pos # [pos + 1..<b]"
    using Suc.prems by (simp add: upt_conv_Cons)
  have cnt: "c + 1 + (b - (pos + 1)) = c + (b - pos)"
    using Suc.prems by simp
  show ?case
  proof (cases "pos + 1 < b")
    case True
    have "group_loop xs nextPos (pos + 1) (fl64 (s + xs ! pos)) (c + 1)
        = (b, foldl (\<lambda>a x. fl64 (a + x)) (fl64 (s + xs ! pos)) (map (nth xs) [pos + 1..<b]),
           (c + 1) + (b - (pos + 1)))"
      using Suc.hyps(2) True by (intro Suc.hyps(1)) simp_all
    then show ?thesis
      using c cnt by (subst group_loop.simps) (simp add: u)
  next
    case False
    with Suc.prems have b: "b = pos + 1" by simp
    have stop: "\<not> (of_nat (pos + 1) < nextPos \<and> pos + 1 < length xs)"
      using assms(3) [of "pos + 1"] b by simp
    have "group_loop xs nextPos (pos + 1) (fl64 (s + xs ! pos)) (c + 1)
        = (pos + 1, fl64 (s + xs ! pos), c + 1)"
      using stop by (subst group_loop.simps) (simp only: if_False)
    then show ?thesis
      using c by (subst group_loop.simps) (simp add: b)
  qed
qed

lemma group_loop_eq:
  assumes "pos \<le> length xs"
  shows "group_loop xs nextPos pos s c
       = (max pos (min (length xs) (nat \<lceil>nextPos\<rceil>)),
          foldl (\<lambda>a x. fl64 (a + x)) s
            (map (nth xs) [pos..<max pos (min (length xs) (nat \<lceil>nextPos\<rceil>))]),
          c + (max pos (min (length xs) (nat \<lceil>nextPos\<rceil>)) - pos))"
proof -
  define b where "b = min (length xs) (nat \<lceil>nextPos\<rceil>)"
  have iff: "(of_nat i < nextPos \<and> i < length xs) = (i < b)" for i
    by (auto simp add: b_def less_ceiling_nat_iff)
  have bl: "b \<le> length xs" by (simp add: b_def)
  show ?thesis
  proof (cases "pos < b")
    case True
    then have "max pos b = b" by simp
    with group_loop_step [OF True bl iff, of s c] show ?thesis
      by (simp only: b_def [symmetric])
  next
    case False
    then have mx: "max pos b = pos" by simp
    have "\<not> (of_nat pos < nextPos \<and> pos < length xs)"
      using False by (simp add: iff)
    then have "group_loop xs nextPos pos s c = (pos, s, c)"
      by (subst group_loop.simps) (simp only: if_False)
    then show ?thesis
      by (simp add: b_def [symmetric] mx)
  qed
qed

lemma group_start_le: "group_start n ratio k \<le> n"
  by (induction k) simp_all

lemma mean64_eq:
  "mean64 (map (nth xs) [a..<b])
     = (if b - a \<noteq> 0
        then fl64 (foldl (\<lambda>a x. fl64 (a + x)) 0 (map (nth xs) [a..<b]) / of_nat (b - a))
        else 0)"
  by (simp add: mean64_def sum64_def)

lemma resample_loop_eq:
  assumes "idx \<le> outLen"
  shows "resample_loop xs ratio outLen idx (group_start (length xs) ratio idx)
       = map (\<lambda>k. fl32 (mean64 (group_of xs ratio k))) [idx..<outLen]"
  using assms
proof (induction "outLen - idx" arbitrary: idx)
  case 0
  then show ?case by (subst resample_loop.simps) simp
next
  case (Suc n)
  then have lt: "idx < outLen" by simp
  let ?a = "group_start (length xs) ratio idx"
  let ?b = "group_start (length xs) ratio (Suc idx)"
  have b: "?b = max ?a (min (length xs) (nat \<lceil>fl64 (of_nat (idx + 1) * ratio)\<rceil>))"
    by simp
  have g: "group_loop xs (fl64 (of_nat (idx + 1) * ratio)) ?a 0 0
      = (?b, foldl (\<lambda>a x. fl64 (a + x)) 0 (map (nth xs) [?a..<?b]), 0 + (?b - ?a))"
    unfolding b by (rule group_loop_eq) (rule group_start_le)
  have rest: "resample_loop xs ratio outLen (idx + 1) ?b
      = map (\<lambda>k. fl32 (mean64 (group_of xs ratio k))) [idx + 1..<outLen]"
    using Suc lt Suc.hyps(1) [of "idx + 1"] by simp
  have u: "[idx..<outLen] = idx # [idx + 1..<outLen]"
    using lt by (simp add: upt_conv_Cons)
  have "resample_loop xs ratio outLen idx ?a
      = fl32 (if ?b - ?a \<noteq> 0
              then fl64 (foldl (\<lambda>a x. fl64 (a + x)) 0 (map (nth xs) [?a..<?b]) / of_nat (?b - ?a))
              else 0)
          # resample_loop xs ratio outLen (idx + 1) ?b"
    using lt by (subst resample_loop.simps) (simp only: g Let_def if_True prod.case add_0)
  also have "\<dots> = fl32 (mean64 (group_of xs ratio idx))
      # map (\<lambda>k. fl32 (mean64 (group_of xs ratio k))) [idx + 1..<outLen]"
    by (simp only: rest group_of_def mean64_eq)
  finally show ?case by (simp only: u list.map)
qed

lemma downsampleTo16k_eq:
  assumes "inRate \<noteq> 16000" "0 < fl64 (inRate / 16000)"
    "fl64 (of_nat (length xs) / fl64 (inRate / 16000)) < 2 ^ 53"
  shows "downsampleTo16k xs inRate
       = Inr (map (\<lambda>k. fl32 (mean64 (group_of xs (fl64 (inRate / 16000)) k)))
                [0..<length64 (length xs) inRate])"
proof -
  have "resample_loop xs (fl64 (inRate / 16000)) (length64 (length xs) inRate) 0
          (group_start (length xs) (fl64 (inRate / 16000)) 0)
      = map (\<lambda>k. fl32 (mean64 (group_of xs (fl64 (inRate / 16000)) k)))
          [0..<length64 (length xs) inRate]"
    by (rule resample_loop_eq) simp
  then show ?thesis
    using assms by (simp add: downsampleTo16k_def Let_def length64_def)
qed

text \<open>
  The boundaries of the groups are doubles: at 17920 Hz the boundary \<open>25 \<cdot> 1.12\<close> is
  the double next above 28, so the sample of index 28 belongs to group 24, whose mean
  is that of the samples 27 and 28.
\<close>

lemma group_boundary_rounded:
  "28 < fl64 (25 * fl64 (17920 / 16000)) \<and>
   (case downsampleTo16k (map of_nat [0..<30]) 17920 of
      Inl e \<Rightarrow> []
    | Inr out \<Rightarrow> drop 22 out) = [25, 26, 55 / 2, 29]"
  by code_simp

text \<open>
  Claim C8 as stated fails: the code takes the length from the doubles \<open>Rin / 16000\<close> and
  \<open>N / ratio\<close>. For a buffer of 33 samples at 35200 Hz the ratio is the double next to
  \<open>2.2\<close>, the quotient the double next below 15, and the code returns 14 samples, where
  \<open>\<lfloor>33 \<cdot> 16000 / 35200\<rfloor> = 15\<close>.
\<close>

theorem C8_counterexample:
  "downsampleTo16k (replicate 33 0) 35200 = Inr (replicate 14 0) \<and>
   spec_length (length (replicate 33 (0::rat))) 35200 = 15"
  by code_simp

text \<open>
  Claim C8, as amended. At 16000 Hz the input comes back unchanged. At any other rate
  whose ratio to 16000, as a double, is positive, and for a buffer whose length divided
  by that ratio, as a double, is below \<open>2^53\<close>, the resampler returns
  \<open>\<lfloor>N / (Rin / 16000)\<rfloor>\<close> samples, both divisions being divisions of doubles; sample
  \<open>k\<close> is the mean of group \<open>k\<close>, computed in doubles and rounded to a single, or 0 when
  the group is empty; and group \<open>k\<close> consists of the samples from the end of group
  \<open>k - 1\<close> up to the first index that is not below the double \<open>(k + 1) \<cdot> ratio\<close>.
\<close>

theorem C8_resampler:
  "downsampleTo16k xs 16000 = Inr xs \<and>
   (inRate \<noteq> 16000 \<and> 0 < fl64 (inRate / 16000) \<and>
    fl64 (of_nat (length xs) / fl64 (inRate / 16000)) < 2 ^ 53 \<longrightarrow>
    (\<exists>out. downsampleTo16k xs inRate = Inr out \<and>
       length out = length64 (length xs) inRate \<and>
       (\<forall>k < length out. out ! k = fl32 (mean64 (group_of xs (fl64 (inRate / 16000)) k)))))"
proof (intro conjI impI)
  show "downsampleTo16k xs 16000 = Inr xs"
    by (simp add: downsampleTo16k_def)
next
  assume a: "inRate \<noteq> 16000 \<and> 0 < fl64 (inRate / 16000) \<and>
    fl64 (of_nat (length xs) / fl64 (inRate / 16000)) < 2 ^ 53"
  let ?out = "map (\<lambda>k. fl32 (mean64 (group_of xs (fl64 (inRate / 16000)) k)))
                [0..<length64 (length xs) inRate]"
  have "downsampleTo16k xs inRate = Inr ?out"
    using a by (intro downsampleTo16k_eq) simp_all
  moreover have "length ?out = length64 (length xs) inRate" by simp
  moreover have "\<forall>k < length ?out. ?out ! k = fl32 (mean64 (group_of xs (fl64 (inRate / 16000)) k))"
    by simp
  ultimately show "\<exists>out. downsampleTo16k xs inRate = Inr out \<and>
       length out = length64 (length xs) inRate \<and>
       (\<forall>k < length out. out ! k = fl32 (mean64 (group_of xs (fl64 (inRate / 16000)) k)))"
    by blast
qed

theorem C8_witness:
  "downsampleTo16k [1, 2, 3] 16000 = Inr [1, 2, 3] \<and>
   downsampleTo16k [1, 2, 3, 4, 5, 6, 7] 48000 = Inr [2, 5] \<and>
   length64 (length [1, 2, 3, 4, 5, 6, 7 :: rat]) 48000 = 2 \<and>
   fl32 (mean64 (group_of [1, 2, 3, 4, 5, 6, 7] (fl64 (48000 / 16000)) 1)) = 5 \<and>
   group_of [1, 2, 3, 4, 5, 6, 7] (fl64 (48000 / 16000)) 1 = [4, 5, 6] \<and>
   downsampleTo16k [1, 2] 8000 = Inr [1, 0, 2, 0] \<and>
   downsampleTo16k [1 / 10, 2 / 10] 32000 = Inr [fl32 (fl64 (fl64 (1 / 10 + 2 / 10) / 2))]"
proof -
  have a: "downsampleTo16k [1, 2, 3, 4, 5, 6, 7] 48000 = Inr [2, 5]"
    and b: "downsampleTo16k [1, 2] 8000 = Inr [1, 0, 2, 0]"
    and c: "downsampleTo16k [1 / 10, 2 / 10] 32000 = Inr [fl32 (fl64 (fl64 (1 / 10 + 2 / 10) / 2))]"
    and g: "group_of [1, 2, 3, 4, 5, 6, 7] (fl64 (48000 / 16000)) 1 = [4, 5, 6]"
    and h: "(48000::rat) \<noteq> 16000 \<and> 0 < fl64 (48000 / 16000) \<and>
        fl64 (of_nat (length [1, 2, 3, 4, 5, 6, 7 :: rat]) / fl64 (48000 / 16000)) < 2 ^ 53"
    by code_simp+
  from C8_resampler [of "[1, 2, 3, 4, 5, 6, 7]" 48000] h
  obtain out where o: "downsampleTo16k [1, 2, 3, 4, 5, 6, 7] 48000 = Inr out"
      "length out = length64 (length [1, 2, 3, 4, 5, 6, 7 :: rat]) 48000"
      "\<forall>k < length out. out ! k = fl32 (mean64 (group_of [1, 2, 3, 4, 5, 6, 7] (fl64 (48000 / 16000)) k))"
    by blast
  from o(1) a have out: "out = [2, 5]" by simp
  from o(2) out have l: "length64 (length [1, 2, 3, 4, 5, 6, 7 :: rat]) 48000 = 2" by simp
  from o(3) out have m: "fl32 (mean64 (group_of [1, 2, 3, 4, 5, 6, 7] (fl64 (48000 / 16000)) 1)) = 5"
    by auto
  from C8_resampler [of "[1, 2, 3]" 0] have s: "downsampleTo16k [1, 2, 3] 16000 = Inr [1, 2, 3]"
    by blast
  from s a l m g b c show ?thesis by simp
qed

subsection \<open>The container\<close>

lemma put_bytes_mid:
  "length pre = off \<Longrightarrow> length old = length bs \<Longrightarrow>
   put_bytes (pre @ old @ post) off bs = Some (pre @ bs @ post)"
  by (simp add: put_bytes_def)

lemma write_samples_mid:
  "length pre = off \<Longrightarrow> length old = 2 * length vs \<Longrightarrow>
   write_samples (pre @ old @ post) off vs = Some (pre @ concat (map le16 vs) @ post)"
proof (induction vs arbitrary: pre off old)
  case Nil
  then show ?case by simp
next
  case (Cons v vs)
  then obtain a b old' where old: "old = a # b # old'"
    by (cases old; cases "tl old") auto
  have "setInt16 (pre @ old @ post) off v = Some ((pre @ le16 v) @ old' @ post)"
    using Cons.prems old put_bytes_mid [of pre off "[a, b]" "le16 v" "old' @ post"]
    by (simp add: setInt16_def le16_def)
  moreover have "write_samples ((pre @ le16 v) @ old' @ post) (off + 2) vs
      = Some ((pre @ le16 v) @ concat (map le16 vs) @ post)"
    by (rule Cons.IH) (use Cons.prems old in \<open>simp_all add: le16_def\<close>)
  ultimately show ?case by simp
qed

lemma length_wav_layout: "length (wav_layout n rate) = 44"
  by (simp add: wav_layout_def ascii_def le32_def le16_def)

lemma length_concat_le16: "length (concat (map le16 xs)) = 2 * length xs"
  by (induction xs) (simp_all add: le16_def)

lemma encodeWav_eq:
  "encodeWav xs rate = Some (wav_layout (length xs) rate @ concat (map le16 xs))"
proof -
  have ws: "write_samples (wav_layout (length xs) rate @ replicate (length xs * 2) 0 @ []) 44 xs
     = Some (wav_layout (length xs) rate @ concat (map le16 xs) @ [])"
    by (rule write_samples_mid) (simp_all add: length_wav_layout)
  show ?thesis
    using ws
    by (simp add: encodeWav_def Let_def js_of_def ascii_def setUint8_def setUint16_def setUint32_def
        put_bytes_def le32_def le16_def wav_layout_def mult.commute)
qed

lemma finalizeSegment_sync_not_Threw: "finalizeSegment_sync cfg st rms \<noteq> Threw"
  by (simp add: finalizeSegment_sync_def Let_def encodeWav_eq)

lemma pcm_value_range: "- 32768 \<le> pcm_value x \<and> pcm_value x \<le> 32767"
proof -
  define s where "s = (if x < - 1 then - 1 else if x > 1 then 1 else x)"
  have s: "- 1 \<le> s" "s \<le> 1" by (auto simp: s_def)
  show ?thesis
  proof (cases "s < 0")
    case True
    have v: "pcm_value x = - \<lfloor>- (s * 32768)\<rfloor>"
      using True by (simp add: pcm_value_def s_def Let_def)
    have "- (s * 32768) \<le> of_int 32768" "of_int 0 \<le> - (s * 32768)" using s True by simp_all
    then have "\<lfloor>- (s * 32768)\<rfloor> \<le> 32768" "0 \<le> \<lfloor>- (s * 32768)\<rfloor>"
      by (metis floor_mono floor_of_int)+
    with v show ?thesis by linarith
  next
    case False
    have v: "pcm_value x = \<lfloor>s * 32767\<rfloor>"
      using False by (simp add: pcm_value_def s_def Let_def)
    have "s * 32767 \<le> of_int 32767" "of_int 0 \<le> s * 32767" using s False by simp_all
    then have "\<lfloor>s * 32767\<rfloor> \<le> 32767" "0 \<le> \<lfloor>s * 32767\<rfloor>"
      by (metis floor_mono floor_of_int)+
    with v show ?thesis by linarith
  qed
qed

lemma floatTo16BitPCM_nth:
  "i < length src \<Longrightarrow> floatTo16BitPCM src ! i = word_of_int (pcm_value (src ! i))"
  by (auto simp add: floatTo16BitPCM_def pcm_value_def toInt16_def js_trunc_def Let_def max_def min_def)

lemma sint_floatTo16BitPCM:
  assumes "i < length src"
  shows "sint (floatTo16BitPCM src ! i) = pcm_value (src ! i)"
proof -
  have "sint (word_of_int (pcm_value (src ! i)) :: 16 word) = signed_take_bit 15 (pcm_value (src ! i))"
    by (simp add: sint_sbintrunc')
  also have "\<dots> = pcm_value (src ! i)"
    using pcm_value_range [of "src ! i"] by (intro signed_take_bit_int_eq_self) simp_all
  finally show ?thesis using assms by (simp add: floatTo16BitPCM_nth)
qed

lemma le_nat_le32: "le_nat (le32 w) = unat w"
proof -
  define x where "x = unat w"
  define y1 where "y1 = x div 256"
  define y2 where "y2 = y1 div 256"
  define y3 where "y3 = y2 div 256"
  define r0 where "r0 = x mod 256"
  define r1 where "r1 = y1 mod 256"
  define r2 where "r2 = y2 mod 256"
  have x: "x < 2 ^ 32" using unsigned_less [of w, where ?'a = nat] by (simp add: x_def)
  have d2: "x div 65536 = y2" by (simp add: y2_def y1_def div_mult2_eq)
  have d3: "x div 16777216 = y3" by (simp add: y3_def y2_def y1_def div_mult2_eq)
  have "y3 < 256" using x d3 [symmetric] by (simp add: less_mult_imp_div_less)
  then have m3: "y3 mod 256 = y3" by simp
  have e0: "x = r0 + 256 * y1" by (simp add: y1_def r0_def)
  have e1: "y1 = r1 + 256 * y2" by (simp add: y2_def r1_def)
  have e2: "y2 = r2 + 256 * y3" by (simp add: y3_def r2_def)
  have "le_nat (le32 w) = r0 + 256 * (r1 + 256 * (r2 + 256 * (y3 mod 256)))"
    unfolding d2 [symmetric] d3 [symmetric] y1_def r0_def r1_def r2_def y2_def
    by (simp add: le_nat_def le32_def unsigned_ucast_eq unat_drop_bit_eq drop_bit_eq_div
        take_bit_eq_mod x_def unat_div div_mult2_eq)
  also have "\<dots> = r0 + 256 * (r1 + 256 * (r2 + 256 * y3))" by (simp only: m3)
  also have "\<dots> = x" by (simp add: e0 e1 e2)
  finally show ?thesis by (simp add: x_def)
qed

lemma wav_layout_16000: "wav_layout n 16000 = riff_header n"
  by (simp add: wav_layout_def riff_header_def)

lemma length_le32: "length (le32 v) = 4"
  by (simp add: le32_def)

lemma riff_header_size_field: "take 4 (drop 40 (riff_header n @ rest)) = le32 (of_nat (2 * n))"
  by (simp add: riff_header_def ascii_def le32_def le16_def)

lemma length_riff_header: "length (riff_header n) = 44"
  by (simp add: riff_header_def ascii_def le32_def le16_def)

lemma le_nat_size_field:
  assumes "2 * n < 2 ^ 32"
  shows "le_nat (le32 (of_nat (2 * n))) = 2 * n"
proof -
  have "unat (of_nat (2 * n) :: 32 word) = 2 * n mod 2 ^ LENGTH(32)"
    by (rule unat_of_nat)
  also have "\<dots> = 2 * n"
    using assms by simp
  finally show ?thesis by (simp only: le_nat_le32)
qed

text \<open>
  Claim C9. For a buffer of \<open>n\<close> samples the encoder yields \<open>44 + 2n\<close> bytes: the
  RIFF/WAVE header of the specification (PCM tag 1, one channel, 16000 Hz, byte rate
  32000, block alignment 2, 16 bits), whose data size field holds \<open>2n\<close>, followed by
  the samples in little-endian order; each sample is the input clamped to \<open>[-1, 1]\<close>,
  scaled by 32768 when negative and by 32767 otherwise, as a signed 16-bit value.
\<close>

theorem C9_wav_container:
  "\<exists>w. encodeWav (floatTo16BitPCM src) 16000 = Some w \<and>
       length w = 44 + 2 * length src \<and>
       take 44 w = riff_header (length src) \<and>
       drop 44 w = concat (map le16 (floatTo16BitPCM src)) \<and>
       (\<forall>i < length src. sint (floatTo16BitPCM src ! i) = pcm_value (src ! i)) \<and>
       take 4 (drop 40 w) = le32 (of_nat (2 * length src)) \<and>
       (2 * length src < 2 ^ 32 \<longrightarrow> le_nat (take 4 (drop 40 w)) = 2 * length src)"
proof -
  let ?pcm = "floatTo16BitPCM src"
  let ?w = "riff_header (length src) @ concat (map le16 ?pcm)"
  have len: "length ?pcm = length src" by (simp add: floatTo16BitPCM_def)
  have enc: "encodeWav ?pcm 16000 = Some ?w"
    by (simp add: encodeWav_eq len wav_layout_16000)
  have l: "length ?w = 44 + 2 * length src"
    by (simp add: length_riff_header length_concat_le16 len)
  have t: "take 44 ?w = riff_header (length src)"
    and d: "drop 44 ?w = concat (map le16 ?pcm)"
    by (simp_all add: length_riff_header)
  have v: "\<forall>i < length src. sint (?pcm ! i) = pcm_value (src ! i)"
    by (simp add: sint_floatTo16BitPCM)
  have f: "take 4 (drop 40 ?w) = le32 (of_nat (2 * length src))"
    by (rule riff_header_size_field)
  have n: "2 * length src < 2 ^ 32 \<longrightarrow> le_nat (take 4 (drop 40 ?w)) = 2 * length src"
    unfolding f by (intro impI le_nat_size_field)
  from enc l t d v f n show ?thesis by blast
qed

theorem C9_witness:
  "\<exists>w. encodeWav (floatTo16BitPCM [1 / 2, - 1 / 2, 3, - 1 / 100000]) 16000 = Some w \<and>
       length w = 52 \<and> take 44 w = riff_header 4 \<and>
       map sint (floatTo16BitPCM [1 / 2, - 1 / 2, 3, - 1 / 100000]) = [16383, - 16384, 32767, 0] \<and>
       le_nat (take 4 (drop 40 w)) = 8"
proof -
  let ?src = "[1 / 2, - 1 / 2, 3, - 1 / 100000 :: rat]"
  have n: "length ?src = 4" by simp
  obtain w where w: "encodeWav (floatTo16BitPCM ?src) 16000 = Some w"
      "length w = 44 + 2 * 4"
      "take 44 w = riff_header 4"
      "\<forall>i < 4. sint (floatTo16BitPCM ?src ! i) = pcm_value (?src ! i)"
      "2 * 4 < (2::nat) ^ 32 \<longrightarrow> le_nat (take 4 (drop 40 w)) = 2 * 4"
    using C9_wav_container [of ?src] unfolding n by blast
  have "sint (floatTo16BitPCM ?src ! 0) = pcm_value (?src ! 0)"
       "sint (floatTo16BitPCM ?src ! 1) = pcm_value (?src ! 1)"
       "sint (floatTo16BitPCM ?src ! 2) = pcm_value (?src ! 2)"
       "sint (floatTo16BitPCM ?src ! 3) = pcm_value (?src ! 3)"
    using w(4) by simp_all
  then have "map sint (floatTo16BitPCM ?src) = [16383, - 16384, 32767, 0]"
    by (simp add: floatTo16BitPCM_def pcm_value_def floor_eq_iff)
  with w(1,2,3,5) show ?thesis by (intro exI [of _ w]) simp
qed

subsection \<open>The segmenter\<close>

lemma onaudioprocess_idle_quiet:
  "\<not> speaking st \<Longrightarrow> energy < vadGateHigh cfg \<Longrightarrow> onaudioprocess cfg st down energy = (st, None)"
  by (simp add: onaudioprocess_def Let_def)

lemma run_frames_append:
  "run_frames cfg st (fs @ gs) =
     (case run_frames cfg st fs of
        (st', a) \<Rightarrow> (case run_frames cfg st' gs of (st'', b) \<Rightarrow> (st'', a @ b)))"
  by (induction fs arbitrary: st) (auto split: prod.splits option.splits)

lemma acc_from_simps [simp]:
  "acc_from a [] = a"
  "acc_from a (d # ds) = acc_from (fl64 (a + frameMs d)) ds"
  "acc_from a (ds @ [d]) = fl64 (acc_from a ds + frameMs d)"
  by (simp_all add: acc_from_def)

lemma onaudioprocess_voiced_continue:
  assumes "speaking st" "vadGateLow cfg \<le> e" "fl64 (segDurMs st + frameMs d) < maxSegmentMs cfg"
  shows "onaudioprocess cfg st d e =
     (st\<lparr>segFrames := segFrames st @ [d], segDurMs := fl64 (segDurMs st + frameMs d),
         silenceMs := 0, voicedMs := fl64 (voicedMs st + frameMs d)\<rparr>, None)"
  using assms by (simp add: onaudioprocess_def Let_def)

lemma onaudioprocess_voiced_cut:
  assumes "speaking st" "vadGateLow cfg \<le> e" "maxSegmentMs cfg \<le> fl64 (segDurMs st + frameMs d)"
  shows "onaudioprocess cfg st d e =
     (resetSegmentState,
      Some (st\<lparr>segFrames := segFrames st @ [d], segDurMs := fl64 (segDurMs st + frameMs d),
         silenceMs := 0, voicedMs := fl64 (voicedMs st + frameMs d)\<rparr>))"
  using assms by (simp add: onaudioprocess_def Let_def)

lemma onaudioprocess_start:
  assumes "\<not> speaking st" "vadGateHigh cfg \<le> e"
  shows "onaudioprocess cfg st d e =
     (st\<lparr>speaking := True, segFrames := segFrames st @ [d],
         segDurMs := fl64 (segDurMs st + frameMs d), silenceMs := 0,
         voicedMs := fl64 (voicedMs st + frameMs d)\<rparr>, None)"
  using assms by (simp add: onaudioprocess_def Let_def)

lemma onaudioprocess_opening:
  assumes "vadGateHigh cfg \<le> e"
  shows "onaudioprocess cfg resetSegmentState d e = (voiced_segment [(d, e)], None)"
  using assms
  by (simp add: onaudioprocess_start resetSegmentState_def voiced_segment_def acc_ms_def)

text \<open>
  While the frames reach \<open>vadGateLow\<close> and the duration accumulated after each of them
  is below \<open>maxSegmentMs\<close>, a speaking segmenter only accumulates.
\<close>

lemma run_frames_voiced:
  assumes "speaking st" "silenceMs st = 0" "\<forall>f \<in> set fs. vadGateLow cfg \<le> snd f"
    "\<forall>j < length fs. acc_from (segDurMs st) (map fst (take (Suc j) fs)) < maxSegmentMs cfg"
  shows "run_frames cfg st fs =
     (st\<lparr>segFrames := segFrames st @ map fst fs,
         segDurMs := acc_from (segDurMs st) (map fst fs),
         voicedMs := acc_from (voicedMs st) (map fst fs)\<rparr>, [])"
  using assms
proof (induction fs arbitrary: st)
  case Nil
  then show ?case by simp
next
  case (Cons f fs)
  obtain d e where f: "f = (d, e)" by (cases f)
  let ?st1 = "st\<lparr>segFrames := segFrames st @ [d], segDurMs := fl64 (segDurMs st + frameMs d),
         silenceMs := 0, voicedMs := fl64 (voicedMs st + frameMs d)\<rparr>"
  have "fl64 (segDurMs st + frameMs d) < maxSegmentMs cfg"
    using Cons.prems(4) by (auto simp add: f dest: spec [where x = 0])
  then have step: "onaudioprocess cfg st d e = (?st1, None)"
    using Cons.prems by (intro onaudioprocess_voiced_continue) (simp_all add: f)
  have below: "\<forall>j < length fs. acc_from (segDurMs ?st1) (map fst (take (Suc j) fs)) < maxSegmentMs cfg"
  proof (intro allI impI)
    fix j
    assume "j < length fs"
    then have "Suc j < length (f # fs)" by simp
    with Cons.prems(4) have "acc_from (segDurMs st) (map fst (take (Suc (Suc j)) (f # fs))) < maxSegmentMs cfg"
      by blast
    then show "acc_from (segDurMs ?st1) (map fst (take (Suc j) fs)) < maxSegmentMs cfg"
      by (simp add: f)
  qed
  have "run_frames cfg ?st1 fs =
      (?st1\<lparr>segFrames := segFrames ?st1 @ map fst fs,
         segDurMs := acc_from (segDurMs ?st1) (map fst fs),
         voicedMs := acc_from (voicedMs ?st1) (map fst fs)\<rparr>, [])"
    using Cons.prems(1,3) below by (intro Cons.IH) simp_all
  with step Cons.prems(2) show ?case by (simp add: f)
qed

lemma run_frames_voiced_prefix:
  assumes "vadGateHigh cfg \<le> snd f0"
    and "\<forall>f \<in> set mid. vadGateLow cfg \<le> snd f"
    and "\<forall>j < length mid. acc_ms (f0 # take (Suc j) mid) < maxSegmentMs cfg"
  shows "run_frames cfg resetSegmentState (f0 # mid) = (voiced_segment (f0 # mid), [])"
proof -
  obtain d0 e0 where f0: "f0 = (d0, e0)" by (cases f0)
  let ?s0 = "voiced_segment [f0]"
  have start: "onaudioprocess cfg resetSegmentState d0 e0 = (?s0, None)"
    using assms(1) by (simp add: onaudioprocess_opening f0)
  have "run_frames cfg ?s0 mid =
     (?s0\<lparr>segFrames := segFrames ?s0 @ map fst mid,
         segDurMs := acc_from (segDurMs ?s0) (map fst mid),
         voicedMs := acc_from (voicedMs ?s0) (map fst mid)\<rparr>, [])"
    using assms(2,3) by (intro run_frames_voiced) (simp_all add: voiced_segment_def acc_ms_def)
  then have mid: "run_frames cfg ?s0 mid = (voiced_segment (f0 # mid), [])"
    by (simp add: voiced_segment_def acc_ms_def)
  show ?thesis using start mid by (simp add: f0)
qed

lemma run_frames_forced_cut:
  assumes "vadGateHigh cfg \<le> snd f0"
    and "\<forall>f \<in> set (mid @ [fl]). vadGateLow cfg \<le> snd f"
    and "\<forall>j < length mid. acc_ms (f0 # take (Suc j) mid) < maxSegmentMs cfg"
    and "maxSegmentMs cfg \<le> acc_ms (f0 # mid @ [fl])"
  shows "run_frames cfg resetSegmentState (f0 # mid @ [fl])
       = (resetSegmentState, [voiced_segment (f0 # mid @ [fl])])"
proof -
  obtain dl el where fl: "fl = (dl, el)" by (cases fl)
  have mid: "run_frames cfg resetSegmentState (f0 # mid) = (voiced_segment (f0 # mid), [])"
    using assms(1,2,3) by (intro run_frames_voiced_prefix) simp_all
  have "onaudioprocess cfg (voiced_segment (f0 # mid)) dl el =
       (resetSegmentState,
        Some ((voiced_segment (f0 # mid))\<lparr>segFrames := segFrames (voiced_segment (f0 # mid)) @ [dl],
           segDurMs := fl64 (segDurMs (voiced_segment (f0 # mid)) + frameMs dl),
           silenceMs := 0,
           voicedMs := fl64 (voicedMs (voiced_segment (f0 # mid)) + frameMs dl)\<rparr>))"
    using assms(2,4) by (intro onaudioprocess_voiced_cut) (simp_all add: voiced_segment_def fl acc_ms_def)
  then have cut: "onaudioprocess cfg (voiced_segment (f0 # mid)) dl el
       = (resetSegmentState, Some (voiced_segment (f0 # mid @ [fl])))"
    by (simp add: voiced_segment_def fl acc_ms_def)
  have "run_frames cfg resetSegmentState ((f0 # mid) @ [fl])
       = (resetSegmentState, [voiced_segment (f0 # mid @ [fl])])"
    unfolding run_frames_append using mid cut by (simp add: fl)
  then show ?thesis by simp
qed

lemma run_frames_idle:
  "\<not> speaking st \<Longrightarrow> \<forall>f \<in> set fs. snd f < vadGateHigh cfg \<Longrightarrow> run_frames cfg st fs = (st, [])"
proof (induction fs)
  case Nil
  then show ?case by simp
next
  case (Cons f fs)
  obtain down e where f: "f = (down, e)" by (cases f)
  with Cons.prems have "e < vadGateHigh cfg" by simp
  with Cons.prems(1) have "onaudioprocess cfg st down e = (st, None)"
    by (rule onaudioprocess_idle_quiet)
  moreover have "run_frames cfg st fs = (st, [])"
    using Cons by simp
  ultimately show ?case by (simp add: f)
qed

text \<open>The default thresholds, and the frames of 2048 samples: 128 ms each, added exactly.\<close>

lemma default_gates:
  "vadGateHigh (default_opts inl outs) = 5764607523034235 / 576460752303423488"
  "vadGateLow (default_opts inl outs) = 4611686018427388 / 1152921504606846976"
  "maxSegmentMs (default_opts inl outs) = 5000"
  "minSpeechMs (default_opts inl outs) = 800"
proof -
  have "fl64 (1 / 100) = 5764607523034235 / 576460752303423488"
    and "fl64 (4 / 1000) = 4611686018427388 / 1152921504606846976"
    by code_simp+
  then show "vadGateHigh (default_opts inl outs) = 5764607523034235 / 576460752303423488"
    and "vadGateLow (default_opts inl outs) = 4611686018427388 / 1152921504606846976"
    and "maxSegmentMs (default_opts inl outs) = 5000"
    and "minSpeechMs (default_opts inl outs) = 800"
    by (simp_all add: default_opts_def)
qed

lemma frameMs_loud: "frameMs (fst loud_frame) = 128"
proof -
  have "fl64 (fl64 (2048 / 16000) * 1000) = 128" by code_simp
  then show ?thesis by (simp add: loud_frame_def frameMs_def)
qed

text \<open>
  The duration of a frame of 1001 samples is the double next below 62.5625: with
  \<open>maxSegmentMs = 125.125\<close> two such frames stay below the limit, and the cut comes
  with the third.
\<close>

lemma frameMs_1001: "frameMs (replicate 1001 x) = 8804889115230207 / 140737488355328"
proof -
  have "fl64 (fl64 (1001 / 16000) * 1000) = 8804889115230207 / 140737488355328" by code_simp
  then show ?thesis by (simp add: frameMs_def)
qed

lemma rounded_cut_one_frame_later:
  "snd (run_frames ((default_opts [] [])\<lparr>maxSegmentMs := 1001 / 8\<rparr>) resetSegmentState
         [(replicate 1001 (1 / 20), 1 / 20), (replicate 1001 (1 / 20), 1 / 20)]) = [] \<and>
   map (\<lambda>s. length (segFrames s))
     (snd (run_frames ((default_opts [] [])\<lparr>maxSegmentMs := 1001 / 8\<rparr>) resetSegmentState
         [(replicate 1001 (1 / 20), 1 / 20), (replicate 1001 (1 / 20), 1 / 20),
          (replicate 1001 (1 / 20), 1 / 20)])) = [3] \<and>
   frameMs (replicate 1001 (1 / 20)) < 1001 / 16"
proof -
  let ?f = "(replicate 1001 (1 / 20 :: rat), 1 / 20 :: rat)"
  let ?cfg = "(default_opts [] [])\<lparr>maxSegmentMs := 1001 / 8\<rparr>"
  have r: "fl64 (8804889115230207 / 140737488355328) = 8804889115230207 / 140737488355328"
      "fl64 (8804889115230207 / 70368744177664) = 8804889115230207 / 70368744177664"
      "fl64 (26414667345690621 / 140737488355328) = 6603666836422655 / 35184372088832"
    by code_simp+
  have a1: "acc_ms [?f] = 8804889115230207 / 140737488355328"
    and a2: "acc_ms [?f, ?f] = 8804889115230207 / 70368744177664"
    and a3: "acc_ms [?f, ?f, ?f] = 6603666836422655 / 35184372088832"
    by (simp_all add: acc_ms_def frameMs_1001 r)
  have hi: "vadGateHigh ?cfg \<le> snd ?f" and lo: "vadGateLow ?cfg \<le> snd ?f"
    and mx: "maxSegmentMs ?cfg = 1001 / 8"
    by (simp_all add: default_gates)
  have below: "\<forall>j < length [?f]. acc_ms (?f # take (Suc j) [?f]) < maxSegmentMs ?cfg"
    unfolding mx by (simp add: a2)
  have "run_frames ?cfg resetSegmentState (?f # [?f]) = (voiced_segment (?f # [?f]), [])"
    using hi lo below by (intro run_frames_voiced_prefix) simp_all
  moreover have "run_frames ?cfg resetSegmentState (?f # [?f] @ [?f])
      = (resetSegmentState, [voiced_segment (?f # [?f] @ [?f])])"
    using hi lo below by (intro run_frames_forced_cut) (simp_all add: mx a3)
  ultimately show ?thesis
    by (simp add: voiced_segment_def frameMs_1001)
qed

lemma acc_from_loud:
  assumes "k + n < 2 ^ 40"
  shows "acc_from (128 * of_nat k) (replicate n (fst loud_frame)) = 128 * of_nat (k + n)"
  using assms
proof (induction n arbitrary: k)
  case 0
  then show ?case by simp
next
  case (Suc n)
  have "128 * Suc k < 2 ^ 53" using Suc.prems by simp
  then have "fl64 (of_nat (128 * Suc k)) = of_nat (128 * Suc k)"
    by (rule fl64_of_nat)
  moreover have "(128 * of_nat k + 128 :: rat) = of_nat (128 * Suc k)" by simp
  ultimately have step: "fl64 (128 * of_nat k + 128) = 128 * of_nat (Suc k)"
    by (simp only: of_nat_mult of_nat_numeral)
  have "acc_from (128 * of_nat (Suc k)) (replicate n (fst loud_frame)) = 128 * of_nat (Suc k + n)"
    using Suc.prems by (intro Suc.IH) simp
  then show ?case by (simp add: frameMs_loud step)
qed

lemma acc_ms_loud:
  assumes "n < 2 ^ 40"
  shows "acc_ms (replicate n loud_frame) = 128 * of_nat n"
  using acc_from_loud [of 0 n] assms by (simp add: acc_ms_def)

lemma acc_ms_loud_Cons:
  assumes "n < 2 ^ 39"
  shows "acc_ms (loud_frame # replicate n loud_frame) = 128 * of_nat (Suc n)"
  using acc_ms_loud [of "Suc n"] assms by simp

lemma acc_ms_loud_Cons_snoc:
  assumes "n < 2 ^ 39"
  shows "acc_ms (loud_frame # replicate n loud_frame @ [loud_frame]) = 128 * of_nat (Suc (Suc n))"
  using acc_ms_loud [of "Suc (Suc n)"] assms by (simp add: replicate_append_same)

lemma loud_prefix_below:
  assumes "j < 38"
  shows "acc_ms (loud_frame # take (Suc j) (replicate 38 loud_frame)) < 5000"
proof -
  have "loud_frame # take (Suc j) (replicate 38 loud_frame) = replicate (Suc (Suc j)) loud_frame"
    using assms by (simp add: min_def)
  moreover have "acc_ms (replicate (Suc (Suc j)) loud_frame) = 128 * of_nat (Suc (Suc j))"
    using assms by (intro acc_ms_loud) simp
  moreover have "(of_nat (Suc (Suc j)) :: rat) \<le> of_nat 39"
    using assms by simp
  ultimately show ?thesis by simp
qed

text \<open>
  Claim C3, as amended. Starting idle, let the first frame reach \<open>vadGateHigh\<close> and every
  later frame reach \<open>vadGateLow\<close>, and let the duration accumulated after each frame
  between the first and the last be below \<open>maxSegmentMs\<close> and the duration accumulated
  after the last be at least \<open>maxSegmentMs\<close>; the accumulated duration is the sum the
  handler keeps, one rounded addition per frame. Then nothing is finalized before the
  last frame; with the last frame the segment made of all the frames is finalized, so
  the finalized duration is at least \<open>maxSegmentMs\<close>, and, when there is a frame between
  the first and the last, it is the rounded sum of a duration below \<open>maxSegmentMs\<close> and
  the duration of the last frame; the state is reset to idle with an empty buffer; and
  the next frame that reaches \<open>vadGateHigh\<close> opens a new segment with that frame alone.
\<close>

theorem C3_forced_cut:
  assumes "vadGateHigh cfg \<le> snd f0"
    and "\<forall>f \<in> set (mid @ [fl]). vadGateLow cfg \<le> snd f"
    and "\<forall>j < length mid. acc_ms (f0 # take (Suc j) mid) < maxSegmentMs cfg"
    and "maxSegmentMs cfg \<le> acc_ms (f0 # mid @ [fl])"
  shows "run_frames cfg resetSegmentState (f0 # mid) = (voiced_segment (f0 # mid), []) \<and>
         run_frames cfg resetSegmentState (f0 # mid @ [fl])
           = (resetSegmentState, [voiced_segment (f0 # mid @ [fl])]) \<and>
         segFrames (voiced_segment (f0 # mid @ [fl])) = map fst (f0 # mid @ [fl]) \<and>
         segDurMs (voiced_segment (f0 # mid @ [fl])) = acc_ms (f0 # mid @ [fl]) \<and>
         maxSegmentMs cfg \<le> segDurMs (voiced_segment (f0 # mid @ [fl])) \<and>
         (mid \<noteq> [] \<longrightarrow>
            acc_ms (f0 # mid) < maxSegmentMs cfg \<and>
            segDurMs (voiced_segment (f0 # mid @ [fl]))
              = fl64 (acc_ms (f0 # mid) + frameMs (fst fl))) \<and>
         resetSegmentState
           = \<lparr>segFrames = [], segDurMs = 0, silenceMs = 0, speaking = False, voicedMs = 0\<rparr> \<and>
         (\<forall>d e. vadGateHigh cfg \<le> e \<longrightarrow>
            onaudioprocess cfg resetSegmentState d e = (voiced_segment [(d, e)], None))"
proof (intro conjI allI impI)
  show "run_frames cfg resetSegmentState (f0 # mid) = (voiced_segment (f0 # mid), [])"
    using assms(1,2,3) by (intro run_frames_voiced_prefix) simp_all
  show "run_frames cfg resetSegmentState (f0 # mid @ [fl])
           = (resetSegmentState, [voiced_segment (f0 # mid @ [fl])])"
    using assms by (rule run_frames_forced_cut)
  show "segFrames (voiced_segment (f0 # mid @ [fl])) = map fst (f0 # mid @ [fl])"
    by (simp add: voiced_segment_def)
  show "segDurMs (voiced_segment (f0 # mid @ [fl])) = acc_ms (f0 # mid @ [fl])"
    by (simp add: voiced_segment_def)
  show "maxSegmentMs cfg \<le> segDurMs (voiced_segment (f0 # mid @ [fl]))"
    using assms(4) by (simp add: voiced_segment_def)
  show "acc_ms (f0 # mid) < maxSegmentMs cfg" if "mid \<noteq> []"
  proof -
    from that have "length mid - 1 < length mid" by simp
    with assms(3) have "acc_ms (f0 # take (Suc (length mid - 1)) mid) < maxSegmentMs cfg"
      by blast
    with that show ?thesis by simp
  qed
  show "segDurMs (voiced_segment (f0 # mid @ [fl]))
      = fl64 (acc_ms (f0 # mid) + frameMs (fst fl))"
    by (simp add: voiced_segment_def acc_ms_def)
  show "resetSegmentState
      = \<lparr>segFrames = [], segDurMs = 0, silenceMs = 0, speaking = False, voicedMs = 0\<rparr>"
    by (simp add: resetSegmentState_def)
next
  fix d e
  assume "vadGateHigh cfg \<le> e"
  then show "onaudioprocess cfg resetSegmentState d e = (voiced_segment [(d, e)], None)"
    by (rule onaudioprocess_opening)
qed

theorem C3_witness:
  "run_frames (default_opts [] []) resetSegmentState (loud_frame # replicate 38 loud_frame)
     = (voiced_segment (loud_frame # replicate 38 loud_frame), []) \<and>
   run_frames (default_opts [] []) resetSegmentState (loud_frame # replicate 38 loud_frame @ [loud_frame])
     = (resetSegmentState, [voiced_segment (loud_frame # replicate 38 loud_frame @ [loud_frame])]) \<and>
   segDurMs (voiced_segment (loud_frame # replicate 38 loud_frame @ [loud_frame])) = 5120 \<and>
   maxSegmentMs (default_opts [] [])
     \<le> segDurMs (voiced_segment (loud_frame # replicate 38 loud_frame @ [loud_frame])) \<and>
   acc_ms (loud_frame # replicate 38 loud_frame) < maxSegmentMs (default_opts [] []) \<and>
   segDurMs (voiced_segment (loud_frame # replicate 38 loud_frame @ [loud_frame]))
     = fl64 (acc_ms (loud_frame # replicate 38 loud_frame) + frameMs (fst loud_frame)) \<and>
   onaudioprocess (default_opts [] []) resetSegmentState (fst loud_frame) (snd loud_frame)
     = (voiced_segment [(fst loud_frame, snd loud_frame)], None)"
proof -
  have hi: "vadGateHigh (default_opts [] []) \<le> snd loud_frame"
    by (simp add: default_gates loud_frame_def)
  have lo: "\<forall>f\<in>set (replicate 38 loud_frame @ [loud_frame]). vadGateLow (default_opts [] []) \<le> snd f"
    by (simp add: default_gates loud_frame_def)
  have below: "\<forall>j < length (replicate 38 loud_frame).
      acc_ms (loud_frame # take (Suc j) (replicate 38 loud_frame)) < maxSegmentMs (default_opts [] [])"
  proof (intro allI impI)
    fix j
    assume "j < length (replicate 38 loud_frame)"
    then have "j < 38" by simp
    then show "acc_ms (loud_frame # take (Suc j) (replicate 38 loud_frame))
        < maxSegmentMs (default_opts [] [])"
      unfolding default_gates(3) by (rule loud_prefix_below)
  qed
  have total: "acc_ms (loud_frame # replicate 38 loud_frame @ [loud_frame]) = 5120"
    using acc_ms_loud_Cons_snoc [of 38] by simp
  have reach: "maxSegmentMs (default_opts [] [])
      \<le> acc_ms (loud_frame # replicate 38 loud_frame @ [loud_frame])"
    unfolding total default_gates(3) by simp
  have ne: "replicate 38 loud_frame \<noteq> []" by simp
  from C3_forced_cut [OF hi lo below reach] hi ne
  have "run_frames (default_opts [] []) resetSegmentState (loud_frame # replicate 38 loud_frame)
       = (voiced_segment (loud_frame # replicate 38 loud_frame), [])"
    and "run_frames (default_opts [] []) resetSegmentState
           (loud_frame # replicate 38 loud_frame @ [loud_frame])
       = (resetSegmentState, [voiced_segment (loud_frame # replicate 38 loud_frame @ [loud_frame])])"
    and "maxSegmentMs (default_opts [] [])
       \<le> segDurMs (voiced_segment (loud_frame # replicate 38 loud_frame @ [loud_frame]))"
    and "acc_ms (loud_frame # replicate 38 loud_frame) < maxSegmentMs (default_opts [] [])"
    and "segDurMs (voiced_segment (loud_frame # replicate 38 loud_frame @ [loud_frame]))
       = fl64 (acc_ms (loud_frame # replicate 38 loud_frame) + frameMs (fst loud_frame))"
    and "onaudioprocess (default_opts [] []) resetSegmentState (fst loud_frame) (snd loud_frame)
       = (voiced_segment [(fst loud_frame, snd loud_frame)], None)"
    by blast+
  moreover have "segDurMs (voiced_segment (loud_frame # replicate 38 loud_frame @ [loud_frame])) = 5120"
    unfolding voiced_segment_def using total by simp
  ultimately show ?thesis by (intro conjI)
qed

text \<open>
  Claim C3 as stated fails: with the default options (\<open>maxSegmentMs = 5000\<close>) and voiced
  frames of 128 ms, nothing is finalized during the first 39 frames (4992 ms); the cut
  comes with the 40th frame, and the segment handed over lasts 5120 ms, more than
  \<open>maxSegmentMs\<close>.
\<close>

theorem C3_counterexample:
  "snd (run_frames (default_opts [] []) resetSegmentState (loud_frame # replicate 38 loud_frame)) = [] \<and>
   segDurMs (fst (run_frames (default_opts [] []) resetSegmentState
       (loud_frame # replicate 38 loud_frame))) = 4992 \<and>
   map segDurMs (snd (run_frames (default_opts [] []) resetSegmentState
       (loud_frame # replicate 38 loud_frame @ [loud_frame]))) = [5120] \<and>
   maxSegmentMs (default_opts [] []) = 5000"
proof -
  have hi: "vadGateHigh (default_opts [] []) \<le> snd loud_frame"
    and lo: "vadGateLow (default_opts [] []) \<le> snd loud_frame"
    and mx: "maxSegmentMs (default_opts [] []) = 5000"
    by (simp_all add: default_gates loud_frame_def)
  have below: "\<forall>j < length (replicate 38 loud_frame).
      acc_ms (loud_frame # take (Suc j) (replicate 38 loud_frame)) < maxSegmentMs (default_opts [] [])"
  proof (intro allI impI)
    fix j
    assume "j < length (replicate 38 loud_frame)"
    then have "j < 38" by simp
    then show "acc_ms (loud_frame # take (Suc j) (replicate 38 loud_frame))
        < maxSegmentMs (default_opts [] [])"
      unfolding default_gates(3) by (rule loud_prefix_below)
  qed
  have t39: "acc_ms (loud_frame # replicate 38 loud_frame) = 4992"
    using acc_ms_loud_Cons [of 38] by simp
  have t40: "acc_ms (loud_frame # replicate 38 loud_frame @ [loud_frame]) = 5120"
    using acc_ms_loud_Cons_snoc [of 38] by simp
  have a: "run_frames (default_opts [] []) resetSegmentState (loud_frame # replicate 38 loud_frame)
      = (voiced_segment (loud_frame # replicate 38 loud_frame), [])"
    using hi lo below by (intro run_frames_voiced_prefix) simp_all
  have b: "run_frames (default_opts [] []) resetSegmentState
       (loud_frame # replicate 38 loud_frame @ [loud_frame])
      = (resetSegmentState, [voiced_segment (loud_frame # replicate 38 loud_frame @ [loud_frame])])"
    using hi lo below by (intro run_frames_forced_cut) (simp_all add: mx t40)
  show ?thesis
    by (simp add: a b mx t39 t40 voiced_segment_def)
qed

text \<open>
  Claim C4. If no frame's energy reaches \<open>vadGateHigh\<close>, an idle segmenter stays as it is
  through the whole stream: the state is unchanged (no buffer, no accumulated frame or
  duration) and \<open>finalizeSegment\<close> is never called, so no request is made.
\<close>

theorem C4_stays_idle_below_gateHigh:
  assumes "\<not> speaking st" and "\<forall>f \<in> set fs. snd f < vadGateHigh cfg"
  shows "run_frames cfg st fs = (st, [])"
  using assms by (rule run_frames_idle)

theorem C4_witness:
  "run_frames (default_opts [] []) resetSegmentState
     [(replicate 2048 (1 / 200), 1 / 200), (replicate 2048 (9 / 1000), 9 / 1000),
      (replicate 2048 (- 1 / 250), 1 / 250)] = (resetSegmentState, [])"
  by (rule C4_stays_idle_below_gateHigh) (simp_all add: default_gates resetSegmentState_def)

subsection \<open>The gates of \<open>finalizeSegment\<close>\<close>

text \<open>
  Claim C5. A segment whose total duration is below \<open>minSpeechMs\<close> is dropped by the
  duration check, before the quality figures are computed: the call makes no request,
  invokes no callback and leaves the request controller alone.
\<close>

theorem C5_short_segment_discarded:
  assumes "segDurMs st < minSpeechMs cfg"
  shows "finalizeSegment_sync cfg st rms = (if segFrames st = [] then NoFrames else TooShort) \<and>
         finalizeSegment cfg st rms c stt env sched = (c, [])"
  using assms by (simp add: finalizeSegment_def finalizeSegment_sync_def Let_def)

theorem C5_witness:
  "finalizeSegment_sync (default_opts [] []) short_quiet_segment (1 / 30) = TooShort \<and>
   finalizeSegment (default_opts [] []) short_quiet_segment (1 / 30) no_request [] silent_env []
     = (no_request, [])"
  using C5_short_segment_discarded
    [of short_quiet_segment "default_opts [] []" "1 / 30" no_request "[]" silent_env "[]"]
  by (simp add: short_quiet_segment_def default_gates)

lemma finalizeSegment_sync_gate:
  assumes "segFrames st \<noteq> []" and "minSpeechMs cfg \<le> segDurMs st"
  shows "finalizeSegment_sync cfg st rms =
     (if voicedFraction_of (voicedMs st) (segDurMs st) < fl64 (18 / 100) \<and> segDurMs st < 1200
      then LowQuality
      else Upload (wav_layout (length (concat (segFrames st))) 16000
                     @ concat (map le16 (floatTo16BitPCM (concat (segFrames st)))))
             \<lparr>stat_durMs = segDurMs st, stat_voicedMs = voicedMs st,
              stat_voicedFraction = voicedFraction_of (voicedMs st) (segDurMs st),
              stat_rms = rms, stat_peak = peak_of (concat (segFrames st))\<rparr>)"
  using assms by (simp add: finalizeSegment_sync_def Let_def encodeWav_eq floatTo16BitPCM_def)

text \<open>
  Claim C6. A segment that passes the duration check is dropped by the quality gate
  exactly when its voiced fraction is below 0.18 and its duration is below 1200 ms; the
  voiced fraction is the voiced duration over the total duration (for a segment of at
  least 1 ms), the quotient and the threshold being doubles. A dropped segment causes no
  encoding, no request and no callback: the call does nothing and leaves the request
  controller alone. Every other segment is encoded, the call takes a new request
  controller, and what it does begins with the transcription request.
\<close>

theorem C6_quality_gate:
  assumes "segFrames st \<noteq> []" and "minSpeechMs cfg \<le> segDurMs st"
  shows "(finalizeSegment_sync cfg st rms = LowQuality \<longleftrightarrow>
            voicedFraction_of (voicedMs st) (segDurMs st) < fl64 (18 / 100) \<and> segDurMs st < 1200) \<and>
         (1 \<le> segDurMs st \<and> 0 \<le> voicedMs st \<longrightarrow>
            voicedFraction_of (voicedMs st) (segDurMs st) = fl64 (voicedMs st / segDurMs st)) \<and>
         (finalizeSegment_sync cfg st rms = LowQuality \<longrightarrow>
            finalizeSegment cfg st rms c stt env sched = (c, [])) \<and>
         (finalizeSegment_sync cfg st rms \<noteq> LowQuality \<longrightarrow>
            (\<exists>wavBuf stats. finalizeSegment_sync cfg st rms = Upload wavBuf stats \<and>
               encodeWav (floatTo16BitPCM (concat (segFrames st))) 16000 = Some wavBuf) \<and>
            finalizeSegment cfg st rms c stt env sched
              = (new_request c, finalizeSegment_async cfg stt env sched) \<and>
            (\<exists>rest. snd (finalizeSegment cfg st rms c stt env sched) = Transcribe # rest) \<and>
            reqCtrl (fst (finalizeSegment cfg st rms c stt env sched)) = Some (fresh c))"
proof (intro conjI impI)
  note g = finalizeSegment_sync_gate [OF assms, of rms]
  show "finalizeSegment_sync cfg st rms = LowQuality \<longleftrightarrow>
           voicedFraction_of (voicedMs st) (segDurMs st) < fl64 (18 / 100) \<and> segDurMs st < 1200"
    unfolding g by simp
  show "finalizeSegment_sync cfg st rms = LowQuality \<Longrightarrow>
           finalizeSegment cfg st rms c stt env sched = (c, [])"
    by (simp add: finalizeSegment_def)
  show "finalizeSegment_sync cfg st rms \<noteq> LowQuality \<Longrightarrow>
           \<exists>wavBuf stats. finalizeSegment_sync cfg st rms = Upload wavBuf stats \<and>
              encodeWav (floatTo16BitPCM (concat (segFrames st))) 16000 = Some wavBuf"
    unfolding g by (simp add: encodeWav_eq floatTo16BitPCM_def split: if_splits)
  have run: "finalizeSegment cfg st rms c stt env sched
             = (new_request c, finalizeSegment_async cfg stt env sched)"
    if "finalizeSegment_sync cfg st rms \<noteq> LowQuality"
  proof -
    from that obtain wavBuf stats where "finalizeSegment_sync cfg st rms = Upload wavBuf stats"
      unfolding g by (simp split: if_splits)
    then show ?thesis by (simp add: finalizeSegment_def)
  qed
  show "finalizeSegment_sync cfg st rms \<noteq> LowQuality \<Longrightarrow>
      finalizeSegment cfg st rms c stt env sched
        = (new_request c, finalizeSegment_async cfg stt env sched)"
    by (rule run)
  show "finalizeSegment_sync cfg st rms \<noteq> LowQuality \<Longrightarrow>
      \<exists>rest. snd (finalizeSegment cfg st rms c stt env sched) = Transcribe # rest"
    by (simp add: run finalizeSegment_async_def)
  show "finalizeSegment_sync cfg st rms \<noteq> LowQuality \<Longrightarrow>
      reqCtrl (fst (finalizeSegment cfg st rms c stt env sched)) = Some (fresh c)"
    by (simp add: run new_request_def)
  show "1 \<le> segDurMs st \<and> 0 \<le> voicedMs st \<Longrightarrow>
           voicedFraction_of (voicedMs st) (segDurMs st) = fl64 (voicedMs st / segDurMs st)"
    by (auto simp add: voicedFraction_of_def max_def)
qed

theorem C6_witness:
  "finalizeSegment_sync (default_opts [] []) breath_segment (1 / 50) = LowQuality \<and>
   voicedFraction_of (voicedMs breath_segment) (segDurMs breath_segment) = 1 / 8 \<and>
   finalizeSegment (default_opts [] []) breath_segment (1 / 50) no_request
       [Resolves (text_reply ''hola'')] silent_env []
     = (no_request, []) \<and>
   finalizeSegment_sync (default_opts [] []) yes_segment (1 / 21) \<noteq> LowQuality \<and>
   voicedFraction_of (voicedMs yes_segment) (segDurMs yes_segment) = 7 / 8 \<and>
   finalizeSegment (default_opts [] []) yes_segment (1 / 21) no_request
       [Resolves (text_reply ''hola'')] silent_env []
     = (\<lparr>reqCtrl = Some 0, aborted = {}, fresh = 1\<rparr>,
        [Transcribe, OnResult (js_of ''hola'') []])"
proof -
  have b: "segFrames breath_segment \<noteq> []"
      "minSpeechMs (default_opts [] []) \<le> segDurMs breath_segment"
    and y: "segFrames yes_segment \<noteq> []"
      "minSpeechMs (default_opts [] []) \<le> segDurMs yes_segment"
    by (simp_all add: breath_segment_def yes_segment_def default_gates)
  have vb: "voicedMs breath_segment = 128" "segDurMs breath_segment = 1024"
    and vy: "voicedMs yes_segment = 896" "segDurMs yes_segment = 1024"
    by (simp_all add: breath_segment_def yes_segment_def)
  have fl: "fl64 (1 / 8) = 1 / 8" "fl64 (7 / 8) = 7 / 8"
      "fl64 (9 / 50) = 3242591731706757 / 18014398509481984"
    by code_simp+
  have fb: "voicedFraction_of 128 1024 = 1 / 8" and fy: "voicedFraction_of 896 1024 = 7 / 8"
    by (simp_all add: voicedFraction_of_def fl)
  have run: "finalizeSegment_async (default_opts [] []) [Resolves (text_reply ''hola'')] silent_env []
      = [Transcribe, OnResult (js_of ''hola'') []]"
    by code_simp
  have nr: "new_request no_request = \<lparr>reqCtrl = Some 0, aborted = {}, fresh = 1\<rparr>"
    by (simp add: new_request_def no_request_def)
  show ?thesis
    using C6_quality_gate [OF b, of "1 / 50" no_request "[Resolves (text_reply ''hola'')]" silent_env "[]"]
      C6_quality_gate [OF y, of "1 / 21" no_request "[Resolves (text_reply ''hola'')]" silent_env "[]"]
    by (simp add: vb vy fb fy fl run nr)
qed

subsection \<open>Empty and blank texts\<close>

text \<open>
  Claim C7. When the transcription request succeeds and the transcript it returns is
  empty (or absent), the call does nothing beyond that request: no translation request,
  no \<open>onResult\<close>, no \<open>onError\<close>.
\<close>

theorem C7_empty_transcript_silent:
  assumes "fetchWithRetry 2 stt = Some (Inr res)" and "body res = Some (Inr j)"
    and "j = None \<or> j = Some []"
  shows "finalizeSegment_async cfg stt env sched = [Transcribe]"
  using assms by (auto simp add: finalizeSegment_async_def request_text_def text_of_def trim_def)

theorem C7_witness:
  "finalizeSegment_async (default_opts [] [js_of ''en'']) [Resolves empty_transcript_reply]
     silent_env [] = [Transcribe]"
  using C7_empty_transcript_silent
    [of "[Resolves empty_transcript_reply]" empty_transcript_reply "Some []"
        "default_opts [] [js_of ''en'']" silent_env "[]"]
  by (simp add: fetchWithRetry_def numeral_2_eq_2 empty_transcript_reply_def)

lemma trim_blank:
  assumes "\<forall>c \<in> set t. is_js_space c"
  shows "trim t = []"
proof -
  have d: "dropWhile is_js_space t = []"
    using assms by simp
  show ?thesis unfolding trim_def d by simp
qed

lemma trim_eq_Nil_iff: "trim t = [] \<longleftrightarrow> (\<forall>c \<in> set t. is_js_space c)"
proof
  assume "trim t = []"
  then have all: "\<forall>c \<in> set (dropWhile is_js_space t). is_js_space c"
    by (simp add: trim_def)
  have "dropWhile is_js_space t = []"
  proof (rule ccontr)
    assume ne: "dropWhile is_js_space t \<noteq> []"
    then have "\<not> is_js_space (hd (dropWhile is_js_space t))" by (rule hd_dropWhile)
    moreover have "hd (dropWhile is_js_space t) \<in> set (dropWhile is_js_space t)"
      using ne by simp
    ultimately show False using all by blast
  qed
  then show "\<forall>c \<in> set t. is_js_space c" by simp
qed (rule trim_blank)

lemma blank_success_request_text: "blank_success atts \<Longrightarrow> request_text atts = Some (Inr [])"
  by (auto simp add: blank_success_def request_text_def split: option.splits sum.splits)

lemma call_failed_request_text: "call_failed atts \<Longrightarrow> \<exists>e. request_text atts = Some (Inl e)"
  by (auto simp add: call_failed_def split: option.splits sum.splits)

lemma settle_blank_as_failure:
  assumes "\<forall>k. env1 k = env2 k \<or> blank_success (env1 k) \<and> call_failed (env2 k)"
  shows "settle env1 w p = settle env2 w p"
proof (cases "w < length (workers p)")
  case False
  then show ?thesis by (simp add: settle_def)
next
  case True
  show ?thesis
  proof (cases "workers p ! w")
    case None
    with True show ?thesis by (simp add: settle_def)
  next
    case (Some a)
    obtain k lang where a: "a = (k, lang)" by (cases a)
    from assms have "env1 k = env2 k \<or> blank_success (env1 k) \<and> call_failed (env2 k)" by blast
    then show ?thesis
    proof
      assume "env1 k = env2 k"
      with True Some a show ?thesis by (simp add: settle_def)
    next
      assume b: "blank_success (env1 k) \<and> call_failed (env2 k)"
      then obtain e where "request_text (env1 k) = Some (Inr [])"
          "request_text (env2 k) = Some (Inl e)"
        using blank_success_request_text call_failed_request_text by blast
      with True Some a show ?thesis by (simp add: settle_def)
    qed
  qed
qed

lemma run_pool_blank_as_failure:
  assumes "\<forall>k. env1 k = env2 k \<or> blank_success (env1 k) \<and> call_failed (env2 k)"
  shows "run_pool env1 sched p = run_pool env2 sched p"
proof -
  have "settle env1 = settle env2"
    using settle_blank_as_failure [OF assms] by (intro ext)
  then show ?thesis by (simp add: run_pool_def)
qed

text \<open>
  Claim C10. A translation call that succeeds with a text that is empty after trimming
  leaves no trace in what the call delivers: replacing, for any targets, such calls by
  calls that throw changes nothing of what \<open>finalizeSegment\<close> does. And a transcript
  made of white space only is treated like an empty one: nothing happens after the
  transcription request.
\<close>

theorem C10_blank_text_as_failure:
  "((\<forall>k. env1 k = env2 k \<or> blank_success (env1 k) \<and> call_failed (env2 k)) \<longrightarrow>
      finalizeSegment_async cfg stt env1 sched = finalizeSegment_async cfg stt env2 sched) \<and>
   (fetchWithRetry 2 stt = Some (Inr res) \<and> body res = Some (Inr (Some t)) \<and>
      (\<forall>c \<in> set t. is_js_space c) \<longrightarrow>
      finalizeSegment_async cfg stt env sched = [Transcribe])"
proof (intro conjI impI)
  assume "\<forall>k. env1 k = env2 k \<or> blank_success (env1 k) \<and> call_failed (env2 k)"
  then have r: "run_pool env1 sched (start_pool cfg) = run_pool env2 sched (start_pool cfg)"
    by (rule run_pool_blank_as_failure)
  show "finalizeSegment_async cfg stt env1 sched = finalizeSegment_async cfg stt env2 sched"
    unfolding finalizeSegment_async_def r ..
next
  assume "fetchWithRetry 2 stt = Some (Inr res) \<and> body res = Some (Inr (Some t)) \<and>
      (\<forall>c \<in> set t. is_js_space c)"
  then show "finalizeSegment_async cfg stt env sched = [Transcribe]"
    by (simp add: finalizeSegment_async_def request_text_def text_of_def trim_blank)
qed

lemma fetchWithRetry_first_ok:
  "ok res \<Longrightarrow> fetchWithRetry 2 (Resolves res # atts) = Some (Inr res)"
  by (simp add: fetchWithRetry_def numeral_2_eq_2)

lemma fetchWithRetry_two_rejects:
  "fetchWithRetry 2 (Rejects e1 # Rejects e2 # atts) = Some (Inl e2)"
  by (simp add: fetchWithRetry_def numeral_2_eq_2)

lemma js_space_simps: "is_js_space 0x20" "is_js_space 0x3000" "is_js_space 0xA"
  by (simp_all add: is_js_space_def)

theorem C10_witness:
  "finalizeSegment_async (default_opts [] [js_of ''en'']) [Resolves hi_reply] blank_env [0]
     = finalizeSegment_async (default_opts [] [js_of ''en'']) [Resolves hi_reply] failing_env [0] \<and>
   finalizeSegment_async (default_opts [] [js_of ''en'']) [Resolves hi_reply] failing_env [0]
     = [Transcribe, Translate (js_of ''en''), OnResult (js_of ''hi'') []] \<and>
   finalizeSegment_async (default_opts [] [js_of ''en'']) [Resolves blank_reply] silent_env [0]
     = [Transcribe]"
proof -
  have h1: "\<forall>k. blank_env k = failing_env k \<or>
      blank_success (blank_env k) \<and> call_failed (failing_env k)"
    by (simp add: blank_env_def failing_env_def blank_success_def call_failed_def request_text_def
        fetchWithRetry_first_ok fetchWithRetry_two_rejects blank_reply_def text_of_def trim_blank
        js_space_simps)
  have h2: "fetchWithRetry 2 [Resolves blank_reply] = Some (Inr blank_reply) \<and>
      body blank_reply = Some (Inr (Some [0x20, 0x3000, 0xA])) \<and>
      (\<forall>c \<in> set [0x20, 0x3000, 0xA]. is_js_space c)"
    by (simp add: fetchWithRetry_first_ok blank_reply_def js_space_simps)
  have run: "finalizeSegment_async (default_opts [] [js_of ''en'']) [Resolves hi_reply] failing_env [0]
     = [Transcribe, Translate (js_of ''en''), OnResult (js_of ''hi'') []]"
    by code_simp
  from C10_blank_text_as_failure
      [of blank_env failing_env "default_opts [] [js_of ''en'']" "[Resolves hi_reply]" "[0]"] h1
  have a: "finalizeSegment_async (default_opts [] [js_of ''en'']) [Resolves hi_reply] blank_env [0]
     = finalizeSegment_async (default_opts [] [js_of ''en'']) [Resolves hi_reply] failing_env [0]"
    by blast
  from C10_blank_text_as_failure
      [of _ _ "default_opts [] [js_of ''en'']" "[Resolves blank_reply]" "[0]" blank_reply
          "[0x20, 0x3000, 0xA]" silent_env] h2
  have b: "finalizeSegment_async (default_opts [] [js_of ''en'']) [Resolves blank_reply] silent_env [0]
     = [Transcribe]"
    by blast
  from a run b show ?thesis by blast
qed

subsection \<open>The order of the translations\<close>

lemma indexOf_ge: "- 1 \<le> indexOf xs x"
  by (induction xs) (simp_all add: Let_def)

lemma indexOf_nth: "distinct xs \<Longrightarrow> k < length xs \<Longrightarrow> indexOf xs (xs ! k) = int k"
proof (induction xs arbitrary: k)
  case Nil
  then show ?case by simp
next
  case (Cons y ys)
  show ?case
  proof (cases k)
    case 0
    then show ?thesis by simp
  next
    case (Suc j)
    with Cons.prems have j: "j < length ys" "distinct ys" "ys ! j \<noteq> y"
      by auto
    with Cons.IH [of j] have "indexOf ys (ys ! j) = int j" by simp
    with j Suc show ?thesis by (simp add: Let_def)
  qed
qed

lemma sum_list_update_mset:
  fixes f :: "'a \<Rightarrow> 'b multiset"
  shows "i < length xs \<Longrightarrow>
    sum_list (map f (xs[i := y])) + f (xs ! i) = sum_list (map f xs) + f y"
proof (induction xs arbitrary: i)
  case Nil
  then show ?case by simp
next
  case (Cons x xs)
  show ?case
  proof (cases i)
    case 0
    then show ?thesis by (simp add: ac_simps)
  next
    case (Suc j)
    with Cons.prems have "j < length xs" by simp
    from Cons.IH [OF this] Suc show ?thesis by (simp add: ac_simps)
  qed
qed

text \<open>One turn of a worker's loop, on a pool that satisfies the invariant but for the workers.\<close>

lemma worker_loop_step:
  assumes ne: "[] \<notin> set outs"
    and np: "next_pos p \<le> length outs"
    and q: "queue p = drop (next_pos p) outs"
    and st: "started p = take (next_pos p) outs"
    and wl: "worker_loop p = (w', p')"
  shows "next_pos p' \<le> length outs \<and> queue p' = drop (next_pos p') outs \<and>
         started p' = take (next_pos p') outs \<and>
         workers p' = workers p \<and> results p' = results p \<and>
         next_pos p \<le> next_pos p' \<and> (queue p = [] \<longrightarrow> queue p' = []) \<and>
         worker_ok outs p' w' \<and>
         mset (map (\<lambda>k. (outs ! k, translation_of env k)) (filter (translated env) [0..<next_pos p']))
           = mset (map (\<lambda>k. (outs ! k, translation_of env k)) (filter (translated env) [0..<next_pos p]))
             + pend outs env w'"
proof (cases "queue p")
  case Nil
  with wl have "w' = None" "p' = p" by (simp_all add: worker_loop_def)
  with Nil np q st show ?thesis by (simp add: worker_ok_def pend_def)
next
  case (Cons l rest)
  with q have lt: "next_pos p < length outs"
    by (metis drop_all list.distinct(1) not_le)
  with q Cons have l: "l = outs ! next_pos p" and rest: "rest = drop (Suc (next_pos p)) outs"
    by (simp_all add: Cons_nth_drop_Suc [symmetric])
  from l lt ne have "l \<noteq> []" by (metis nth_mem)
  with wl Cons have w': "w' = Some (next_pos p, l)"
    and p': "p' = p\<lparr>queue := rest, next_pos := next_pos p + 1, started := started p @ [l]\<rparr>"
    by (simp_all add: worker_loop_def)
  show ?thesis
    using lt l rest st Cons
    by (simp add: w' p' worker_ok_def pend_def take_Suc_conv_app_nth)
qed

lemma worker_ok_cong:
  "queue p' = queue p \<Longrightarrow> next_pos p' = next_pos p \<Longrightarrow> worker_ok outs p' w = worker_ok outs p w"
  by (simp add: worker_ok_def split: option.splits)

lemma worker_ok_mono:
  assumes "worker_ok outs p w" "next_pos p \<le> next_pos p'" "queue p = [] \<longrightarrow> queue p' = []"
  shows "worker_ok outs p' w"
  using assms by (auto simp add: worker_ok_def split: option.splits)

lemma spawn_inv:
  assumes "[] \<notin> set outs" "pool_inv outs env p"
  shows "pool_inv outs env (spawn n p) \<and> length (workers (spawn n p)) = length (workers p) + n"
  using assms(2)
proof (induction n arbitrary: p)
  case 0
  then show ?case by simp
next
  case (Suc n)
  obtain w' p' where wl: "worker_loop p = (w', p')" by (cases "worker_loop p")
  from Suc.prems have a: "next_pos p \<le> length outs" "queue p = drop (next_pos p) outs"
      "started p = take (next_pos p) outs"
    by (simp_all add: pool_inv_def)
  note s = worker_loop_step [OF assms(1) a wl, of env]
  let ?p1 = "p'\<lparr>workers := workers p' @ [w']\<rparr>"
  have ok: "list_all (worker_ok outs ?p1) (workers ?p1)"
  proof -
    have "list_all (worker_ok outs p) (workers p)" using Suc.prems by (simp add: pool_inv_def)
    then have "list_all (worker_ok outs p') (workers p)"
      using s worker_ok_mono [of outs p _ p'] by (auto simp add: list_all_iff)
    moreover have "worker_ok outs p' w'" using s by simp
    moreover have "worker_ok outs ?p1 = worker_ok outs p'"
      by (intro ext worker_ok_cong) simp_all
    ultimately show ?thesis using s by simp
  qed
  have "mset (results p) + sum_list (map (pend outs env) (workers p))
       = mset (map (\<lambda>k. (outs ! k, translation_of env k))
                (filter (translated env) [0..<next_pos p]))"
    using Suc.prems by (simp add: pool_inv_def)
  then have "pool_inv outs env ?p1"
    using s ok by (simp add: pool_inv_def ac_simps)
  from Suc.IH [OF this] s wl show ?case by simp
qed

lemma settle_inv:
  assumes ne: "[] \<notin> set outs" and inv: "pool_inv outs env p"
  shows "pool_inv outs env (settle env w p) \<and> length (workers (settle env w p)) = length (workers p)"
proof (cases "w < length (workers p)")
  case False
  with inv show ?thesis by (simp add: settle_def)
next
  case True
  show ?thesis
  proof (cases "workers p ! w")
    case None
    with True inv show ?thesis by (simp add: settle_def)
  next
    case (Some a)
    obtain k lang where a: "a = (k, lang)" by (cases a)
    show ?thesis
    proof (cases "request_text (env k)")
      case None
      with True Some a inv show ?thesis by (simp add: settle_def)
    next
      case (Some r)
      define p1 where "p1 = (case r of Inl e \<Rightarrow> p
          | Inr t \<Rightarrow> if t \<noteq> [] then p\<lparr>results := results p @ [(lang, t)]\<rparr> else p)"
      obtain w' p2 where wl: "worker_loop p1 = (w', p2)" by (cases "worker_loop p1")
      have res: "settle env w p = p2\<lparr>workers := (workers p2)[w := w']\<rparr>"
        using True \<open>workers p ! w = Some a\<close> a Some wl
        by (simp add: settle_def p1_def)
      have wk: "worker_ok outs p (Some (k, lang))"
        using inv True \<open>workers p ! w = Some a\<close> a
        by (auto simp add: pool_inv_def list_all_length)
      then have lang: "lang = outs ! k" by (simp add: worker_ok_def)
      have p1: "next_pos p1 = next_pos p" "queue p1 = queue p" "started p1 = started p"
          "workers p1 = workers p"
        by (simp_all add: p1_def split: sum.splits)
      have r1: "mset (results p1) = mset (results p) + pend outs env (Some (k, lang))"
        using Some lang
        by (auto simp add: p1_def pend_def translated_def translation_of_def split: sum.splits)
      have a1: "next_pos p1 \<le> length outs" "queue p1 = drop (next_pos p1) outs"
          "started p1 = take (next_pos p1) outs"
        using inv by (simp_all add: pool_inv_def p1)
      note s = worker_loop_step [OF ne a1 wl, of env]
      let ?p3 = "p2\<lparr>workers := (workers p2)[w := w']\<rparr>"
      have ok: "list_all (worker_ok outs ?p3) (workers ?p3)"
      proof -
        have "list_all (worker_ok outs p) (workers p)" using inv by (simp add: pool_inv_def)
        moreover have "worker_ok outs p1 = worker_ok outs p"
          by (intro ext worker_ok_cong) (simp_all add: p1)
        ultimately have "list_all (worker_ok outs p1) (workers p)"
          by simp
        then have "list_all (worker_ok outs p2) (workers p)"
          using s worker_ok_mono [of outs p1 _ p2] by (auto simp add: list_all_iff)
        moreover have "worker_ok outs p2 w'" using s by simp
        ultimately have "list_all (worker_ok outs p2) ((workers p)[w := w'])"
          using True by (auto simp add: list_all_length nth_list_update)
        moreover have "worker_ok outs ?p3 = worker_ok outs p2"
          by (intro ext worker_ok_cong) simp_all
        ultimately show ?thesis using s by (simp add: p1)
      qed
      have sum: "sum_list (map (pend outs env) ((workers p)[w := w'])) + pend outs env (Some (k, lang))
          = sum_list (map (pend outs env) (workers p)) + pend outs env w'"
        using sum_list_update_mset [OF True, of "pend outs env" w'] \<open>workers p ! w = Some a\<close> a
        by simp
      have "mset (results p) + sum_list (map (pend outs env) (workers p))
          = mset (map (\<lambda>k. (outs ! k, translation_of env k))
                (filter (translated env) [0..<next_pos p]))"
        using inv by (simp add: pool_inv_def)
      then have "mset (results p1) + sum_list (map (pend outs env) ((workers p)[w := w']))
          = mset (map (\<lambda>k. (outs ! k, translation_of env k))
                (filter (translated env) [0..<next_pos p])) + pend outs env w'"
        using sum r1 by (simp add: ac_simps)
      then have "pool_inv outs env ?p3"
        using s ok by (simp add: pool_inv_def p1)
      then show ?thesis using res s by (simp add: p1)
    qed
  qed
qed

lemma start_pool_inv:
  assumes "[] \<notin> set (outputs cfg)"
  shows "pool_inv (outputs cfg) env (start_pool cfg) \<and> workers (start_pool cfg) \<noteq> []"
proof -
  let ?p0 = "\<lparr>queue = outputs cfg, next_pos = 0, workers = [], results = [], started = []\<rparr>"
  have "pool_inv (outputs cfg) env ?p0" by (simp add: pool_inv_def)
  from spawn_inv [OF assms this, of "nat (maxWorkers cfg)"]
  have "pool_inv (outputs cfg) env (start_pool cfg)"
    and "length (workers (start_pool cfg)) = nat (maxWorkers cfg)"
    by (simp_all add: start_pool_def)
  moreover have "1 \<le> maxWorkers cfg" by (simp add: maxWorkers_def Let_def)
  ultimately show ?thesis by auto
qed

lemma run_pool_inv:
  assumes "[] \<notin> set outs" "pool_inv outs env p"
  shows "pool_inv outs env (run_pool env sched p) \<and>
         length (workers (run_pool env sched p)) = length (workers p)"
  using assms(2)
proof (induction sched arbitrary: p)
  case Nil
  then show ?case by (simp add: run_pool_def)
next
  case (Cons w sched)
  from settle_inv [OF assms(1) Cons.prems, of w]
  have "pool_inv outs env (settle env w p)"
    and "length (workers (settle env w p)) = length (workers p)" by simp_all
  with Cons.IH [of "settle env w p"] show ?case by (simp add: run_pool_def)
qed

lemma sum_list_pend_None:
  "\<forall>w \<in> set ws. w = None \<Longrightarrow> sum_list (map (pend outs env) ws) = {#}"
  by (induction ws) (simp_all add: pend_def)

lemma pool_inv_settled:
  assumes "pool_inv outs env p" "workers p \<noteq> []" "all_settled p"
  shows "mset (results p) = mset (expected_translations outs env) \<and> started p = outs"
proof -
  from assms(2,3) have allNone: "\<forall>w \<in> set (workers p). w = None"
    by (simp add: all_settled_def list_all_iff)
  with assms(2) have "None \<in> set (workers p)" by (cases "workers p") auto
  with assms(1) have "queue p = []"
    by (auto simp add: pool_inv_def list_all_iff worker_ok_def)
  with assms(1) have np: "next_pos p = length outs" by (simp add: pool_inv_def)
  from allNone have "sum_list (map (pend outs env) (workers p)) = {#}"
    by (rule sum_list_pend_None)
  with assms(1) np show ?thesis by (simp add: pool_inv_def expected_translations_def)
qed

lemma sort_results_expected:
  assumes "distinct outs" "mset rs = mset (expected_translations outs env)"
  shows "sort_results outs rs = expected_translations outs env"
  unfolding sort_results_def
proof (rule sort_key_inj_key_eq [OF assms(2)])
  have key: "indexOf outs (fst (outs ! k, translation_of env k)) = int k" if "k < length outs" for k
    using assms(1) that by (simp add: indexOf_nth)
  have "set rs = set (expected_translations outs env)"
    using assms(2) by (rule mset_eq_setD)
  then show "inj_on (\<lambda>r. indexOf outs (fst r)) (set rs)"
    using key by (auto simp add: inj_on_def expected_translations_def)
  have "map (\<lambda>r. indexOf outs (fst r)) (expected_translations outs env)
      = map int (filter (translated env) [0..<length outs])"
    using key by (simp add: expected_translations_def)
  moreover have "sorted (map int (filter (translated env) [0..<length outs]))"
    by (simp add: sorted_map sorted_wrt_filter)
  ultimately show "sorted (map (\<lambda>r. indexOf outs (fst r)) (expected_translations outs env))"
    by simp
qed

text \<open>
  Claim C2 as stated fails for a target list with a repeated or an empty entry. The
  sort key is \<open>outputs.indexOf(lang)\<close>, the first position of a target: for the
  targets \<open>es, fr, es\<close> both results for \<open>es\<close> come before the one for \<open>fr\<close>, in
  the order in which their calls completed, so the delivered list is neither in the
  order of the target list nor independent of the order of completion. A worker that
  shifts an empty target leaves its loop (line 317): for the targets \<open>es\<close>, the empty
  string, \<open>fr\<close> and one worker, the call for \<open>fr\<close> is never made and only \<open>es\<close> is
  delivered, although no call failed.
\<close>

theorem C2_counterexample:
  "finalizeSegment_async (default_opts [] es_fr_es) [Resolves (text_reply ''hola'')] es_fr_es_env [0, 1, 2]
     = [Transcribe, Translate (js_of ''es''), Translate (js_of ''fr''), Translate (js_of ''es''),
        OnResult (js_of ''hola'')
          [(js_of ''es'', js_of ''uno''), (js_of ''es'', js_of ''dos''), (js_of ''fr'', js_of ''deux'')]] \<and>
   finalizeSegment_async (default_opts [] es_fr_es) [Resolves (text_reply ''hola'')] es_fr_es_env [2, 1, 0]
     = [Transcribe, Translate (js_of ''es''), Translate (js_of ''fr''), Translate (js_of ''es''),
        OnResult (js_of ''hola'')
          [(js_of ''es'', js_of ''dos''), (js_of ''es'', js_of ''uno''), (js_of ''fr'', js_of ''deux'')]] \<and>
   expected_translations es_fr_es es_fr_es_env
     = [(js_of ''es'', js_of ''uno''), (js_of ''fr'', js_of ''deux''), (js_of ''es'', js_of ''dos'')] \<and>
   finalizeSegment_async ((default_opts [] es_blank_fr)\<lparr>translationParallelWorkers := Some 1\<rparr>)
       [Resolves (text_reply ''hola'')] es_fr_es_env [0]
     = [Transcribe, Translate (js_of ''es''),
        OnResult (js_of ''hola'') [(js_of ''es'', js_of ''uno'')]] \<and>
   translated es_fr_es_env 2 \<and>
   es_blank_fr ! 2 = js_of ''fr''"
  by code_simp

text \<open>
  Claim C2, as amended. For a target list whose entries are distinct and not empty: once
  the transcript is there and every translation call has settled, in whatever order,
  a translation has been requested for every target and \<open>onResult\<close> receives the
  target list in its order, each target with the text of its call, the targets left out
  whose call failed or gave no text. The delivery does not depend on the order of
  completion.
\<close>

theorem C2_translations_in_target_order:
  assumes "request_text stt = Some (Inr transcript)" and "transcript \<noteq> []"
    and "all_settled (run_pool env sched (start_pool cfg))"
    and "distinct (outputs cfg)" and "[] \<notin> set (outputs cfg)"
  shows "finalizeSegment_async cfg stt env sched
           = Transcribe # map Translate (outputs cfg)
               @ [OnResult transcript (expected_translations (outputs cfg) env)]"
proof -
  let ?p = "run_pool env sched (start_pool cfg)"
  let ?d = "sort_results (outputs cfg) (results ?p)"
  have run: "finalizeSegment_async cfg stt env sched
      = Transcribe # map Translate (started ?p) @ [OnResult transcript ?d]"
    using assms(1,2,3) by (simp add: finalizeSegment_async_def Let_def)
  from start_pool_inv [OF assms(5), of env]
  have i0: "pool_inv (outputs cfg) env (start_pool cfg)" and w0: "workers (start_pool cfg) \<noteq> []"
    by simp_all
  from run_pool_inv [OF assms(5) i0, of sched] w0
  have "pool_inv (outputs cfg) env ?p" and "workers ?p \<noteq> []" by auto
  from pool_inv_settled [OF this assms(3)]
  have "mset (results ?p) = mset (expected_translations (outputs cfg) env)"
    and st: "started ?p = outputs cfg" by simp_all
  with sort_results_expected [OF assms(4)]
  have "?d = expected_translations (outputs cfg) env" by simp
  with run st show ?thesis by simp
qed

theorem C2_witness:
  "finalizeSegment_async (default_opts [] abc) [Resolves (text_reply ''hola'')] abc_env [2, 0, 1]
     = [Transcribe, Translate (js_of ''es''), Translate (js_of ''ja''), Translate (js_of ''fr''),
        OnResult (js_of ''hola'') [(js_of ''es'', js_of ''uno''), (js_of ''fr'', js_of ''tres'')]] \<and>
   results (run_pool abc_env [2, 0, 1] (start_pool (default_opts [] abc)))
     = [(js_of ''fr'', js_of ''tres''), (js_of ''es'', js_of ''uno'')] \<and>
   finalizeSegment_async (default_opts [] abc) [Resolves (text_reply ''hola'')] abc_env [1, 0, 2]
     = finalizeSegment_async (default_opts [] abc) [Resolves (text_reply ''hola'')] abc_env [2, 0, 1]"
proof -
  let ?cfg = "default_opts [] abc"
  let ?stt = "[Resolves (text_reply ''hola'')]"
  have h1: "request_text ?stt = Some (Inr (js_of ''hola''))" and h2: "js_of ''hola'' \<noteq> []"
    by code_simp+
  have h3: "all_settled (run_pool abc_env [2, 0, 1] (start_pool ?cfg))"
    and h3': "all_settled (run_pool abc_env [1, 0, 2] (start_pool ?cfg))"
    by code_simp+
  have o: "outputs ?cfg = abc"
    by (simp add: default_opts_def)
  have h4: "distinct (outputs ?cfg)" and h5: "[] \<notin> set (outputs ?cfg)"
    unfolding o by code_simp+
  have e: "expected_translations abc abc_env
      = [(js_of ''es'', js_of ''uno''), (js_of ''fr'', js_of ''tres'')]"
    by code_simp
  have r: "results (run_pool abc_env [2, 0, 1] (start_pool ?cfg))
     = [(js_of ''fr'', js_of ''tres''), (js_of ''es'', js_of ''uno'')]"
    by code_simp
  note a = C2_translations_in_target_order [OF h1 h2 h3 h4 h5]
  note b = C2_translations_in_target_order [OF h1 h2 h3' h4 h5]
  from a b r show ?thesis by (simp add: o e) (simp add: abc_def)
qed

subsection \<open>Cancellation\<close>

lemma is_abort_abort_error: "is_abort abort_error"
  by (simp add: is_abort_def abort_error_def)

lemma request_text_after_abort:
  assumes "n < 2" "length atts = n" "list_all failed_attempt atts"
  shows "request_text (after_abort n atts) = Some (Inl abort_error)"
proof -
  from assms(1) have "n = 0 \<or> n = 1" by auto
  then show ?thesis
  proof
    assume "n = 0"
    with assms(2) show ?thesis
      by (simp add: after_abort_def request_text_def fetchWithRetry_def numeral_2_eq_2)
  next
    assume n: "n = 1"
    with assms(2) obtain a where a: "atts = [a]" by (cases atts) auto
    with assms(3) have "failed_attempt a" by simp
    then show ?thesis
      by (cases a)
        (simp_all add: a n after_abort_def request_text_def fetchWithRetry_def numeral_2_eq_2
          failed_attempt_def)
  qed
qed

text \<open>
  The part of claim C1 that holds: when the controller is aborted while the transcription
  request is pending (the fetches settled so far all failed), or while the body of its
  response is being read, the call invokes no callback and dispatches no translation.
\<close>

lemma abort_during_transcription_silent:
  assumes "n < 2" "length atts = n" "list_all failed_attempt atts"
  shows "finalizeSegment_async cfg (after_abort n atts) env sched = [Transcribe]"
  using request_text_after_abort [OF assms]
  by (simp add: finalizeSegment_async_def on_catch_def is_abort_abort_error)

lemma abort_during_json_silent:
  assumes "ok res" "body res = Some (Inl abort_error)"
  shows "finalizeSegment_async cfg (Resolves res # atts) env sched = [Transcribe]"
  using assms
  by (simp add: finalizeSegment_async_def request_text_def fetchWithRetry_first_ok on_catch_def
      is_abort_abort_error)

lemma new_request_aborts_previous:
  "reqCtrl c = Some a \<Longrightarrow> a \<in> aborted (new_request c) \<and> reqCtrl (new_request c) = Some (fresh c)"
  by (simp add: new_request_def)

lemma cleanup_aborts_current:
  "reqCtrl c = Some a \<Longrightarrow> a \<in> aborted (cleanup_ctrl c) \<and> reqCtrl (cleanup_ctrl c) = None"
  by (simp add: cleanup_ctrl_def)

text \<open>
  Claim C1: once a call's request is aborted, by the request of a later segment or by
  \<open>cleanup\<close>, nothing of the aborted work reaches \<open>onResult\<close> or \<open>onError\<close>. The
  code breaks it. The first segment's request has controller 0; its transcript \<open>hola\<close>
  has arrived and the translation for its one target is under way when the controller is
  aborted. The translation fetches reject with \<open>AbortError\<close>, the worker swallows the
  error, and \<open>onResult\<close> is invoked all the same, with the transcript and no
  translation.
\<close>

theorem C1_abort_during_translation_reaches_onResult:
  "reqCtrl (new_request no_request) = Some 0 \<and>
   aborted (new_request (new_request no_request)) = {0} \<and>
   aborted (cleanup_ctrl (new_request no_request)) = {0} \<and>
   finalizeSegment_async (default_opts [] [js_of ''en'']) [Resolves (text_reply ''hola'')]
       aborted_env [0]
     = [Transcribe, Translate (js_of ''en''), OnResult (js_of ''hola'') []]"
proof -
  have "finalizeSegment_async (default_opts [] [js_of ''en'']) [Resolves (text_reply ''hola'')]
       aborted_env [0]
     = [Transcribe, Translate (js_of ''en''), OnResult (js_of ''hola'') []]"
    by code_simp
  then show ?thesis
    by (simp add: new_request_def cleanup_ctrl_def no_request_def)
qed

end
